theory Spec2Isabelle
  imports Main "HOL-Library.AList"
begin

section \<open>Names and the node hierarchy\<close>

text \<open>
  The JavaScript \<^verbatim>\<open>name.split('_')\<close>: the segments between underscores, never an
  empty array (the empty string splits into one empty segment).
\<close>

fun split_underscore :: "string \<Rightarrow> string list" where
  "split_underscore [] = [[]]"
| "split_underscore (c # cs) =
     (if c = CHR ''_'' then [] # split_underscore cs
      else (case split_underscore cs of
              [] \<Rightarrow> [[c]]
            | seg # segs \<Rightarrow> (c # seg) # segs))"

text \<open>
  A tree node (\<^verbatim>\<open>function Node(obj, parent)\<close>). \<^verbatim>\<open>index\<close> is \<open>None\<close> where the
  JavaScript value is \<^verbatim>\<open>undefined\<close> (the root), \<^verbatim>\<open>filteredBy\<close> is \<open>None\<close> for
  \<^verbatim>\<open>null\<close>, and \<^verbatim>\<open>children\<close> is \<open>None\<close> for \<^verbatim>\<open>null\<close> (a leaf) and otherwise the
  dictionary from the last name segment to the child, kept as an association list
  in the order in which \<^verbatim>\<open>for ... in\<close> enumerates it. The \<^verbatim>\<open>parent\<close> reference is
  not stored: a node is always reached from the root by its name, and its parent
  is the node one segment earlier on that walk. Presentation fields (\<^verbatim>\<open>hover\<close>,
  \<^verbatim>\<open>dim\<close>, coordinates) are not part of the embedded state.
\<close>

datatype node = Node
  (index: "nat option")
  (nodeName: string)
  (filtered: bool)
  (filteredBy: "string option")
  (children: "(string \<times> node) list option")

text \<open>The property names that every plain object inherits from \<^verbatim>\<open>Object.prototype\<close>:
  those of the language standard and the accessors that browsers add. The
  dictionary \<^verbatim>\<open>children\<close> is created as \<^verbatim>\<open>{}\<close>, so reading one of these names from
  it yields the inherited value (a function, or the prototype object itself) where
  the dictionary has no key of its own.\<close>

definition Object_prototype :: "string list" where
  "Object_prototype =
     [''constructor'', ''toString'', ''toLocaleString'', ''valueOf'', ''hasOwnProperty'',
      ''isPrototypeOf'', ''propertyIsEnumerable'', ''__proto__'', ''__defineGetter__'',
      ''__defineSetter__'', ''__lookupGetter__'', ''__lookupSetter__'']"

text \<open>What a property read can produce: a node, the value inherited from
  \<^verbatim>\<open>Object.prototype\<close> under the given name (not a node; none of these values has a
  property \<^verbatim>\<open>children\<close>, \<^verbatim>\<open>parent\<close>, \<^verbatim>\<open>filtered\<close> or a method of \<^verbatim>\<open>Node\<close>), \<^verbatim>\<open>undefined\<close>,
  \<^verbatim>\<open>undefined\<close> after the \<^verbatim>\<open>alert('Incorrect nodeName')\<close> of \<^verbatim>\<open>getNodeByName\<close>, or a
  thrown TypeError (a property read on \<^verbatim>\<open>undefined\<close> or \<^verbatim>\<open>null\<close>).\<close>

datatype lookup = Found node | Inherited string | Undefined | UndefinedAfterAlert | TypeErrorThrown

text \<open>\<^verbatim>\<open>x.children[k]\<close> for an \<^verbatim>\<open>x\<close> that was itself read before. The keys of the
  dictionary itself come first, then the prototype chain. On an inherited value
  \<^verbatim>\<open>x.children\<close> is \<^verbatim>\<open>undefined\<close>, so the read of \<^verbatim>\<open>[k]\<close> throws.\<close>

fun children_at :: "lookup \<Rightarrow> string \<Rightarrow> lookup" where
  "children_at (Found n) k =
     (case children n of
        None \<Rightarrow> TypeErrorThrown
      | Some kids \<Rightarrow>
          (case map_of kids k of
             Some c \<Rightarrow> Found c
           | None \<Rightarrow> if k \<in> set Object_prototype then Inherited k else Undefined))"
| "children_at _ k = TypeErrorThrown"

definition getNodeByName :: "node \<Rightarrow> string \<Rightarrow> lookup" where
  "getNodeByName root nm =
     (case split_underscore nm of
        [a0] \<Rightarrow> children_at (Found root) a0
      | [a0, a1] \<Rightarrow> children_at (children_at (Found root) a0) a1
      | [a0, a1, a2] \<Rightarrow> children_at (children_at (children_at (Found root) a0) a1) a2
      | _ \<Rightarrow> UndefinedAfterAlert)"

text \<open>Walking the hierarchy along a list of segment keys.\<close>

fun walk :: "node \<Rightarrow> string list \<Rightarrow> node option" where
  "walk n [] = Some n"
| "walk n (k # ks) =
     (case children n of
        None \<Rightarrow> None
      | Some kids \<Rightarrow> (case map_of kids k of None \<Rightarrow> None | Some c \<Rightarrow> walk c ks))"

definition hasChildren :: "node \<Rightarrow> bool" where
  "hasChildren n = (children n \<noteq> None)"

section \<open>The node list, the link list and the global state\<close>

text \<open>An element of \<^verbatim>\<open>nv.nodesList\<close>. \<^verbatim>\<open>neighbors\<close> maps a neighbour's index to
  the index of the connecting link, in enumeration order, which for these integer
  keys is the ascending one. The presentation fields of an element and of a link
  (\<^verbatim>\<open>hover\<close>, \<^verbatim>\<open>dim\<close>, coordinates), which only the drawing code reads, are not part of
  the embedded state.\<close>

record elt =
  e_nodeName :: string
  e_type :: string
  neighbors :: "(nat \<times> nat) list"
  e_show :: bool
  exploded :: bool

record link =
  source :: nat
  target :: nat
  l_type :: string
  l_filtered :: bool
  l_filteredBy :: "string option"

text \<open>The globals of the \<^verbatim>\<open>nv\<close> namespace together with the fields of the
  \<^verbatim>\<open>Visual\<close> controller. The identity cache \<^verbatim>\<open>nv.crossLinksDict\<close> is keyed by the
  ordered pair of node indices (the source builds the key \<^verbatim>\<open>a + '_' + b\<close> from the
  decimal forms of the two indices).\<close>

record state =
  root :: node
  nodesList :: "elt list"
  numNodes :: nat
  linksList :: "link list"
  numLinks :: nat
  crossLinksDict :: "((nat \<times> nat) \<times> link) list"
  newCrossLinks :: "link list"
  currentLayer :: string

text \<open>The result of a procedure that mutates the state: it returns, or a TypeError
  is thrown and the mutations made so far stay in place, or the recursion budget
  of a possibly unbounded recursion is used up.\<close>

datatype 's outcome = Ok 's | TypeError 's | OutOfFuel

fun bind :: "'s outcome \<Rightarrow> ('s \<Rightarrow> 's outcome) \<Rightarrow> 's outcome" where
  "bind (Ok s) f = f s"
| "bind (TypeError s) f = TypeError s"
| "bind OutOfFuel f = OutOfFuel"

text \<open>A \<^verbatim>\<open>for\<close> loop over the elements of a list; a throw ends it.\<close>

fun for_each :: "('a \<Rightarrow> 's \<Rightarrow> 's outcome) \<Rightarrow> 'a list \<Rightarrow> 's \<Rightarrow> 's outcome" where
  "for_each body [] s = Ok s"
| "for_each body (x # xs) s = bind (body x s) (for_each body xs)"

section \<open>Rendering the nodes\<close>

text \<open>One iteration of the loop of \<^verbatim>\<open>Visual.prototype.renderNodes\<close>. The tree node
  is looked up before \<^verbatim>\<open>exploded\<close> is reset, and \<^verbatim>\<open>node.filtered\<close> is read after. On
  an inherited value \<^verbatim>\<open>node.filtered\<close> is \<^verbatim>\<open>undefined\<close>, which the test takes as false.\<close>

definition renderNodes_step :: "bool \<Rightarrow> nat \<Rightarrow> state \<Rightarrow> state outcome" where
  "renderNodes_step resetExplosions i s =
     (if i < length (nodesList s) then
        (let elt = nodesList s ! i in
         case getNodeByName (root s) (e_nodeName elt) of
           Found nd \<Rightarrow>
             (let elt1 = (if resetExplosions then elt\<lparr>exploded := False\<rparr> else elt);
                  elt2 = (if filtered nd then elt1\<lparr>e_show := False\<rparr>
                          else if e_type elt1 = currentLayer s \<and> \<not> exploded elt1
                               then elt1\<lparr>e_show := True\<rparr>
                          else if e_type elt1 \<noteq> currentLayer s \<and> \<not> exploded elt1
                               then elt1\<lparr>e_show := False\<rparr>
                          else elt1)
              in Ok (s\<lparr>nodesList := (nodesList s)[i := elt2]\<rparr>))
         | Inherited p \<Rightarrow>
             (let elt1 = (if resetExplosions then elt\<lparr>exploded := False\<rparr> else elt);
                  elt2 = (if e_type elt1 = currentLayer s \<and> \<not> exploded elt1
                               then elt1\<lparr>e_show := True\<rparr>
                          else if e_type elt1 \<noteq> currentLayer s \<and> \<not> exploded elt1
                               then elt1\<lparr>e_show := False\<rparr>
                          else elt1)
              in Ok (s\<lparr>nodesList := (nodesList s)[i := elt2]\<rparr>))
         | TypeErrorThrown \<Rightarrow> TypeError s
         | _ \<Rightarrow>
             TypeError (if resetExplosions
                        then s\<lparr>nodesList := (nodesList s)[i := elt\<lparr>exploded := False\<rparr>]\<rparr>
                        else s))
      else TypeError s)"

definition renderNodes :: "bool \<Rightarrow> state \<Rightarrow> state outcome" where
  "renderNodes resetExplosions s =
     for_each (renderNodes_step resetExplosions) [0 ..< numNodes s] s"

section \<open>Filters\<close>

text \<open>
  A filter object. \<^verbatim>\<open>label\<close> is \<^verbatim>\<open>layer + '_' + attribute\<close>. The predicates
  \<^verbatim>\<open>isNodeInbound\<close> and \<^verbatim>\<open>isLinkInbound\<close> are fields, as in the source, where
  \<^verbatim>\<open>toggleIncludeNeighbors\<close> replaces \<^verbatim>\<open>isNodeInbound\<close> at run time; they answer
  \<open>None\<close> when the evaluation throws a TypeError.
\<close>

record filter =
  layer :: string
  attribute :: string
  label :: string
  isNodeInbound :: "node \<Rightarrow> bool option"
  isLinkInbound :: "link \<Rightarrow> bool option"

text \<open>\<^verbatim>\<open>qFilter.prototype.isInbound\<close>.\<close>

definition qFilter_isInbound :: "'a::linorder \<Rightarrow> 'a \<Rightarrow> 'a \<Rightarrow> bool option" where
  "qFilter_isInbound lower upper attr =
     (if attr > upper \<or> attr < lower then Some False else Some True)"

text \<open>
  \<^verbatim>\<open>rFilter.prototype.isInbound\<close>. The built-in \<^verbatim>\<open>RegExp\<close> constructor is a
  parameter: \<open>RegExp pattern\<close> is \<open>None\<close> when the constructor throws a SyntaxError
  and otherwise the \<^verbatim>\<open>test\<close> function of the compiled pattern. The source catches
  the SyntaxError, logs it to the console and goes on to \<^verbatim>\<open>return re.test(attribute)\<close>
  with \<^verbatim>\<open>re\<close> still \<^verbatim>\<open>undefined\<close>, which throws a TypeError.
\<close>

definition rFilter_isInbound ::
  "(string \<Rightarrow> (string \<Rightarrow> bool) option) \<Rightarrow> string \<Rightarrow> string \<Rightarrow> bool option" where
  "rFilter_isInbound RegExp pattern attr =
     (case RegExp pattern of
        None \<Rightarrow> None
      | Some test \<Rightarrow> Some (test attr))"

text \<open>The \<^verbatim>\<open>rFilter\<close> constructor followed by \<^verbatim>\<open>updatePattern\<close>; \<open>getProperty\<close> and
  \<open>linkProperty\<close> read the attribute of a tree node's list element and of a link.\<close>

definition rFilter ::
  "(string \<Rightarrow> (string \<Rightarrow> bool) option) \<Rightarrow> (node \<Rightarrow> string \<Rightarrow> string) \<Rightarrow>
   (link \<Rightarrow> string \<Rightarrow> string) \<Rightarrow> string \<Rightarrow> string \<Rightarrow> string \<Rightarrow> filter" where
  "rFilter RegExp getProperty linkProperty attr lay pattern =
     \<lparr>layer = lay, attribute = attr, label = lay @ ''_'' @ attr,
      isNodeInbound = (\<lambda>n. rFilter_isInbound RegExp pattern (getProperty n attr)),
      isLinkInbound = (\<lambda>l. rFilter_isInbound RegExp pattern (linkProperty l attr))\<rparr>"

subsection \<open>Marking tree nodes\<close>

definition filterOut :: "node \<Rightarrow> node" where
  "filterOut n = Node (index n) (nodeName n) True (filteredBy n) (children n)"

definition filterIn :: "node \<Rightarrow> node" where
  "filterIn n = Node (index n) (nodeName n) False (filteredBy n) (children n)"

definition markNode :: "filter \<Rightarrow> node \<Rightarrow> node" where
  "markNode f n = Node (index n) (nodeName n) (filtered n) (Some (label f)) (children n)"

definition unmarkNode :: "node \<Rightarrow> node" where
  "unmarkNode n = Node (index n) (nodeName n) (filtered n) None (children n)"

definition areChildrenFilteredOut :: "node \<Rightarrow> bool" where
  "areChildrenFilteredOut n =
     (case children n of
        None \<Rightarrow> True
      | Some kids \<Rightarrow> list_all (\<lambda>kc. filtered (snd kc)) kids)"

text \<open>\<^verbatim>\<open>NodesTree.prototype.filterOutRecursive\<close>: the result is the node after the
  call, with the marks set in its subtree.\<close>

function filterOutRecursive :: "filter \<Rightarrow> node \<Rightarrow> node" where
  "filterOutRecursive f n =
     Node (index n) (nodeName n) (filtered n) (filteredBy n)
       (map_option
          (map (\<lambda>kc. if filteredBy (snd kc) = None
                     then (fst kc, filterOutRecursive f (markNode f (filterOut (snd kc))))
                     else kc))
          (children n))"
  by pat_completeness auto
termination
proof (relation "measure (\<lambda>(f, n). size n)")
  show "wf (measure (\<lambda>(f, n). size n))" by simp
next
  fix f :: filter and n :: node and kids :: "(string \<times> node) list" and kc :: "string \<times> node"
  assume kids: "children n = Some kids" and kc: "kc \<in> set kids"
  have "size (snd kc) \<le> size_prod (\<lambda>x. 0) size kc"
    by (cases kc) simp
  also have "\<dots> \<le> size_list (size_prod (\<lambda>x. 0) size) kids"
    using kc by (simp add: size_list_estimation')
  also have "\<dots> < size n"
    using kids by (cases n) simp
  finally have "size (snd kc) < size n" .
  moreover have "size (markNode f (filterOut (snd kc))) = size (snd kc)"
    by (cases "snd kc") (simp add: markNode_def filterOut_def)
  ultimately show "((f, markNode f (filterOut (snd kc))), (f, n)) \<in> measure (\<lambda>(f, n). size n)"
    by simp
qed

text \<open>\<^verbatim>\<open>NodesTree.prototype.filterInRecursive\<close>.\<close>

function filterInRecursive :: "filter \<Rightarrow> node \<Rightarrow> node" where
  "filterInRecursive f n =
     Node (index n) (nodeName n) (filtered n) (filteredBy n)
       (map_option
          (map (\<lambda>kc. if filteredBy (snd kc) = Some (label f)
                     then (fst kc, filterInRecursive f (unmarkNode (filterIn (snd kc))))
                     else kc))
          (children n))"
  by pat_completeness auto
termination
proof (relation "measure (\<lambda>(f, n). size n)")
  show "wf (measure (\<lambda>(f, n). size n))" by simp
next
  fix f :: filter and n :: node and kids :: "(string \<times> node) list" and kc :: "string \<times> node"
  assume kids: "children n = Some kids" and kc: "kc \<in> set kids"
  have "size (snd kc) \<le> size_prod (\<lambda>x. 0) size kc"
    by (cases kc) simp
  also have "\<dots> \<le> size_list (size_prod (\<lambda>x. 0) size) kids"
    using kc by (simp add: size_list_estimation')
  also have "\<dots> < size n"
    using kids by (cases n) simp
  finally have "size (snd kc) < size n" .
  moreover have "size (unmarkNode (filterIn (snd kc))) = size (snd kc)"
    by (cases "snd kc") (simp add: unmarkNode_def filterIn_def)
  ultimately show "((f, unmarkNode (filterIn (snd kc))), (f, n)) \<in> measure (\<lambda>(f, n). size n)"
    by simp
qed

subsection \<open>The node filtering pass\<close>

text \<open>In-place mutation of the node reached by a path: \<open>update_at g p n\<close> is \<open>n\<close> with
  \<open>g\<close> applied to the node that \<open>walk n p\<close> finds.\<close>

fun update_at :: "(node \<Rightarrow> node) \<Rightarrow> string list \<Rightarrow> node \<Rightarrow> node" where
  "update_at g [] n = g n"
| "update_at g (k # ks) n =
     Node (index n) (nodeName n) (filtered n) (filteredBy n)
       (map_option (map (\<lambda>kc. if fst kc = k then (fst kc, update_at g ks (snd kc)) else kc))
          (children n))"

text \<open>\<^verbatim>\<open>FilterGroup.prototype.getSubArray\<close>: the slice from the first element of the
  layer on, \<open>None\<close> for \<^verbatim>\<open>undefined\<close> when there is none.\<close>

fun getSubArray :: "elt list \<Rightarrow> string \<Rightarrow> elt list option" where
  "getSubArray [] lay = None"
| "getSubArray (e # es) lay = (if e_type e = lay then Some (e # es) else getSubArray es lay)"

text \<open>What the body of the loop of \<^verbatim>\<open>Filter.prototype.filterNodes\<close> does to the node
  it has looked up. Each branch of the source evaluates \<^verbatim>\<open>isNodeInbound\<close> exactly
  once, whatever \<^verbatim>\<open>node.filtered\<close> is. When the name does not resolve to a node the
  iteration throws before anything is written: \<^verbatim>\<open>node.filtered\<close> throws on
  \<^verbatim>\<open>undefined\<close>, and on an inherited value \<^verbatim>\<open>node.filtered\<close> is \<^verbatim>\<open>undefined\<close> and the
  next call, \<^verbatim>\<open>node.getProperty\<close> inside \<^verbatim>\<open>isNodeInbound\<close> or
  \<^verbatim>\<open>node.areChildrenFilteredOut\<close>, is a call of \<^verbatim>\<open>undefined\<close>.\<close>

definition filter_target :: "filter \<Rightarrow> node \<Rightarrow> node option" where
  "filter_target f nd =
     (case isNodeInbound f nd of
        None \<Rightarrow> None
      | Some inbound \<Rightarrow>
          Some (if \<not> filtered nd \<and> \<not> inbound \<and> filteredBy nd = None then
                  (let nd1 = markNode f (filterOut nd)
                   in if hasChildren nd1 then filterOutRecursive f nd1 else nd1)
                else if filtered nd \<and> inbound \<and> filteredBy nd = Some (label f) then
                  (let nd1 = unmarkNode (filterIn nd)
                   in if hasChildren nd1 then filterInRecursive f nd1 else nd1)
                else nd))"

definition filter_ancestor :: "filter \<Rightarrow> node \<Rightarrow> node" where
  "filter_ancestor f nd =
     (if \<not> filtered nd \<and> areChildrenFilteredOut nd then markNode f (filterOut nd)
      else if filtered nd \<and> \<not> areChildrenFilteredOut nd then unmarkNode (filterIn nd)
      else nd)"

definition filterNodes_step :: "filter \<Rightarrow> elt \<Rightarrow> node \<Rightarrow> node outcome" where
  "filterNodes_step f e rt =
     (case getNodeByName rt (e_nodeName e) of
        Found nd \<Rightarrow>
          (if e_type e = layer f then
             (case filter_target f nd of
                None \<Rightarrow> TypeError rt
              | Some nd' \<Rightarrow> Ok (update_at (\<lambda>_. nd') (split_underscore (e_nodeName e)) rt))
           else Ok (update_at (\<lambda>_. filter_ancestor f nd) (split_underscore (e_nodeName e)) rt))
      | _ \<Rightarrow> TypeError rt)"

text \<open>\<^verbatim>\<open>Filter.prototype.filterNodes\<close> on the tree, given the layer-sorted node array
  of the filter group.\<close>

definition filterNodes :: "filter \<Rightarrow> elt list \<Rightarrow> node \<Rightarrow> node outcome" where
  "filterNodes f layer_sorted_nodes rt =
     (case getSubArray layer_sorted_nodes (layer f) of
        None \<Rightarrow> TypeError rt
      | Some sub_array \<Rightarrow> for_each (filterNodes_step f) sub_array rt)"

text \<open>The table \<^verbatim>\<open>nv.layerOrder\<close>.\<close>

definition layerOrder :: "string \<Rightarrow> nat option" where
  "layerOrder t =
     (if t = ''router'' then Some 0
      else if t = ''router_pop'' then Some 1
      else if t = ''pop_router'' then Some 1
      else if t = ''pop'' then Some 2
      else if t = ''router_metro'' then Some 2
      else if t = ''metro_router'' then Some 2
      else if t = ''pop_metro'' then Some 3
      else if t = ''metro_pop'' then Some 3
      else if t = ''metro'' then Some 4
      else None)"

section \<open>Exploding nodes and building crosslinks\<close>

text \<open>Writing an integer key of an object. \<^verbatim>\<open>for ... in\<close> enumerates integer keys in
  ascending order, whenever they were added, so the association list of an object
  with integer keys is ascending in its keys and a new key is put at its place in
  that order.\<close>

fun put_key :: "nat \<Rightarrow> 'v \<Rightarrow> (nat \<times> 'v) list \<Rightarrow> (nat \<times> 'v) list" where
  "put_key k v [] = [(k, v)]"
| "put_key k v ((k', v') # kvs) =
     (if k = k' then (k, v) # kvs
      else if k < k' then (k, v) # (k', v') # kvs
      else (k', v') # put_key k v kvs)"

text \<open>The assignment \<^verbatim>\<open>nv.nodesList[i].neighbors[j] = v\<close>.\<close>

definition set_neighbor :: "nat \<Rightarrow> nat \<Rightarrow> nat \<Rightarrow> elt list \<Rightarrow> elt list" where
  "set_neighbor i j v es = es[i := (es ! i)\<lparr>neighbors := put_key j v (neighbors (es ! i))\<rparr>]"

text \<open>\<^verbatim>\<open>Visual.prototype.buildCrosslinks_\<close>. Both node types are read before anything
  is written, so an index outside the node list throws with the state unchanged.
  The second record is a deep copy of the first with source and target swapped,
  so it keeps the type string of the first.\<close>

definition crossLink :: "nat \<Rightarrow> nat \<Rightarrow> state \<Rightarrow> link" where
  "crossLink mainIndex neighborIndex s =
     \<lparr>source = mainIndex, target = neighborIndex,
      l_type = e_type (nodesList s ! mainIndex) @ ''_'' @ e_type (nodesList s ! neighborIndex),
      l_filtered = False, l_filteredBy = None\<rparr>"

definition buildCrosslinks_writes :: "nat \<Rightarrow> nat \<Rightarrow> state \<Rightarrow> state" where
  "buildCrosslinks_writes mainIndex neighborIndex s =
     (let crossLink1 = crossLink mainIndex neighborIndex s;
          crossLink2 = crossLink1\<lparr>source := neighborIndex, target := mainIndex\<rparr>
      in s\<lparr>nodesList :=
              set_neighbor neighborIndex mainIndex (Suc (numLinks s))
                (set_neighbor mainIndex neighborIndex (numLinks s) (nodesList s)),
            numLinks := Suc (Suc (numLinks s)),
            newCrossLinks := newCrossLinks s @ [crossLink1, crossLink2],
            crossLinksDict :=
              AList.update (neighborIndex, mainIndex) crossLink2
                (AList.update (mainIndex, neighborIndex) crossLink1 (crossLinksDict s))\<rparr>)"

definition buildCrosslinks :: "nat \<Rightarrow> nat \<Rightarrow> state \<Rightarrow> state outcome" where
  "buildCrosslinks mainIndex neighborIndex s =
     (if mainIndex < length (nodesList s) \<and> neighborIndex < length (nodesList s)
      then Ok (buildCrosslinks_writes mainIndex neighborIndex s)
      else TypeError s)"

text \<open>The parent of the node that a name resolves to.\<close>

definition parent :: "node \<Rightarrow> string \<Rightarrow> node option" where
  "parent rt nm = walk rt (butlast (split_underscore nm))"

text \<open>\<^verbatim>\<open>Visual.prototype.buildUpCrosslinks\<close>. Every recursive call follows the creation
  of a crosslink for a pair that was not cached, which is why the recursion ends
  whatever the tree and the node list hold. \<^verbatim>\<open>neighbor_node.parent.index\<close> throws
  when the name resolves to \<^verbatim>\<open>undefined\<close> or to an inherited value, which has no
  \<^verbatim>\<open>parent\<close>.\<close>

function buildUpCrosslinks :: "nat \<Rightarrow> nat \<Rightarrow> state \<Rightarrow> state outcome" where
  "buildUpCrosslinks mainIndex neighborIndex s =
     (if mainIndex < length (nodesList s) \<and> neighborIndex < length (nodesList s) then
        (if map_of (crossLinksDict s) (mainIndex, neighborIndex) = None \<and>
            e_type (nodesList s ! mainIndex) \<noteq> e_type (nodesList s ! neighborIndex) then
           (case buildCrosslinks mainIndex neighborIndex s of
              Ok s1 \<Rightarrow>
                (case getNodeByName (root s1) (e_nodeName (nodesList s1 ! neighborIndex)) of
                   Found neighbor_node \<Rightarrow>
                     (case parent (root s1) (e_nodeName (nodesList s1 ! neighborIndex)) of
                        None \<Rightarrow> TypeError s1
                      | Some p \<Rightarrow>
                          (case index p of
                             None \<Rightarrow> Ok s1
                           | Some new_neighborIndex \<Rightarrow>
                               buildUpCrosslinks mainIndex new_neighborIndex s1))
                 | _ \<Rightarrow> TypeError s1)
            | r \<Rightarrow> r)
         else Ok s)
      else TypeError s)"
  by pat_completeness auto
termination
proof (relation "measure (\<lambda>(m, n, s).
         card {k. k < length (nodesList s) \<and> map_of (crossLinksDict s) (m, k) = None})")
  show "wf (measure (\<lambda>(m, n, s).
         card {k. k < length (nodesList s) \<and> map_of (crossLinksDict s) (m, k) = None}))"
    by simp
next
  fix m n :: nat and s s1 :: state and nd p :: node and n' :: nat
  assume rng: "m < length (nodesList s) \<and> n < length (nodesList s)"
    and fresh: "map_of (crossLinksDict s) (m, n) = None \<and>
                e_type (nodesList s ! m) \<noteq> e_type (nodesList s ! n)"
    and s1: "buildCrosslinks m n s = Ok s1"
  let ?A = "\<lambda>s. {k. k < length (nodesList s) \<and> map_of (crossLinksDict s) (m, k) = None}"
  from s1 rng have s1_eq: "s1 = buildCrosslinks_writes m n s"
    by (simp add: buildCrosslinks_def)
  have len: "length (nodesList s1) = length (nodesList s)"
    unfolding s1_eq by (simp add: buildCrosslinks_writes_def Let_def set_neighbor_def)
  have dict: "map_of (crossLinksDict s) (m, k) = None \<and> k \<noteq> n"
    if "map_of (crossLinksDict s1) (m, k) = None" for k
    using that unfolding s1_eq
    by (simp add: buildCrosslinks_writes_def Let_def update_conv' split: if_splits)
  have "?A s1 \<subseteq> ?A s" using len dict by auto
  moreover have "n \<in> ?A s" using rng fresh by simp
  moreover have "n \<notin> ?A s1" using dict by auto
  ultimately have "?A s1 \<subset> ?A s" by blast
  moreover have "finite (?A s)" by simp
  ultimately have "card (?A s1) < card (?A s)" by (rule psubset_card_mono[rotated])
  then show "((m, n', s1), (m, n, s)) \<in> measure (\<lambda>(m, n, s).
         card {k. k < length (nodesList s) \<and> map_of (crossLinksDict s) (m, k) = None})"
    by simp
qed

text \<open>\<^verbatim>\<open>Visual.prototype.buildDownCrosslinks\<close>. The recursion follows the indices
  stored in the tree and the names stored in the node list, which need not agree,
  so its depth is bounded by a recursion budget: each recursive call uses one unit,
  and a call that would recurse with no unit left does not return. The test
  \<^verbatim>\<open>neighbor_node.children != null\<close> is false on an inherited value, whose \<^verbatim>\<open>children\<close>
  is \<^verbatim>\<open>undefined\<close>, and throws on \<^verbatim>\<open>undefined\<close>.\<close>

fun buildDownCrosslinks :: "nat \<Rightarrow> nat \<Rightarrow> nat \<Rightarrow> state \<Rightarrow> state outcome" where
  "buildDownCrosslinks fuel mainIndex neighborIndex s =
     (if mainIndex < length (nodesList s) \<and> neighborIndex < length (nodesList s) then
        (if e_show (nodesList s ! neighborIndex) \<and>
            map_of (crossLinksDict s) (mainIndex, neighborIndex) = None \<and>
            e_type (nodesList s ! mainIndex) \<noteq> e_type (nodesList s ! neighborIndex) then
           buildCrosslinks mainIndex neighborIndex s
         else if \<not> e_show (nodesList s ! neighborIndex) then
           (case getNodeByName (root s) (e_nodeName (nodesList s ! neighborIndex)) of
              Found neighbor_node \<Rightarrow>
                (case children neighbor_node of
                   None \<Rightarrow> Ok s
                 | Some kids \<Rightarrow>
                     (case fuel of
                        0 \<Rightarrow> (if kids = [] then Ok s else OutOfFuel)
                      | Suc fuel' \<Rightarrow>
                          for_each
                            (\<lambda>kc s'. case index (snd kc) of
                                       None \<Rightarrow> TypeError s'
                                     | Some new_neighborIndex \<Rightarrow>
                                         buildDownCrosslinks fuel' mainIndex new_neighborIndex s')
                            kids s))
            | Inherited p \<Rightarrow> Ok s
            | _ \<Rightarrow> TypeError s)
         else Ok s)
      else TypeError s)"

text \<open>\<^verbatim>\<open>Visual.prototype.renderLinks\<close>: the new crosslinks are appended to the link
  list; the callback that selects the links to draw reads the \<^verbatim>\<open>show\<close> flag of both
  end nodes (of the target only when the source is shown) and throws when an end
  node does not exist, and \<^verbatim>\<open>linkHighlightOff\<close> reads the first \<^verbatim>\<open>numNodes\<close> elements
  of the node list.\<close>

definition link_drawable :: "elt list \<Rightarrow> link \<Rightarrow> bool" where
  "link_drawable es d =
     (source d < length es \<and> (e_show (es ! source d) \<longrightarrow> target d < length es))"

definition renderLinks :: "state \<Rightarrow> state outcome" where
  "renderLinks s =
     (let s1 = s\<lparr>linksList := linksList s @ newCrossLinks s, newCrossLinks := []\<rparr>
      in if list_all (link_drawable (nodesList s1)) (linksList s1) \<and>
            numNodes s1 \<le> length (nodesList s1)
         then Ok s1 else TypeError s1)"

text \<open>The body of the loop over the children in \<^verbatim>\<open>Visual.prototype.explodeNode\<close>,
  for the element with index \<open>i\<close>. The inner loop enumerates the keys that
  \<^verbatim>\<open>elt.neighbors\<close> has when the loop starts. \<^verbatim>\<open>node.hasChildren()\<close> throws when the
  name of the element does not resolve to a node.\<close>

definition explode_child :: "nat \<Rightarrow> nat \<Rightarrow> string \<times> node \<Rightarrow> state \<Rightarrow> state outcome" where
  "explode_child fuel i kc s =
     (case index (snd kc) of
        None \<Rightarrow> TypeError s
      | Some child_index \<Rightarrow>
          if child_index < length (nodesList s) then
            (let s1 = s\<lparr>nodesList := (nodesList s)
                         [child_index := (nodesList s ! child_index)\<lparr>e_show := True, exploded := True\<rparr>]\<rparr>
             in for_each
                  (\<lambda>neighbor s'. bind (buildUpCrosslinks child_index neighbor s')
                                      (buildDownCrosslinks fuel child_index neighbor))
                  (map fst (neighbors (nodesList s1 ! i))) s1)
          else TypeError s)"

text \<open>\<^verbatim>\<open>Visual.prototype.explodeNode\<close> for the element with index \<open>i\<close>: the tree node
  of the element is looked up; when it has children the element is hidden and
  marked, and every child is revealed, marked and linked; then the links are
  rendered. The highlight that the source clears first is a presentation field.\<close>

definition explodeNode :: "nat \<Rightarrow> nat \<Rightarrow> state \<Rightarrow> state outcome" where
  "explodeNode fuel i s =
     (if i < length (nodesList s) then
        (case getNodeByName (root s) (e_nodeName (nodesList s ! i)) of
           Found nd \<Rightarrow>
             bind (case children nd of
                     None \<Rightarrow> Ok s
                   | Some kids \<Rightarrow>
                       for_each (explode_child fuel i) kids
                         (s\<lparr>nodesList := (nodesList s)
                              [i := (nodesList s ! i)\<lparr>e_show := False, exploded := True\<rparr>]\<rparr>))
                  renderLinks
         | _ \<Rightarrow> TypeError s)
      else TypeError s)"

text \<open>A sequence of explosions, one per event; an explosion that throws leaves its
  partial state to the next event.\<close>

fun explodeNodes :: "nat \<Rightarrow> nat list \<Rightarrow> state \<Rightarrow> state option" where
  "explodeNodes fuel [] s = Some s"
| "explodeNodes fuel (i # is) s =
     (case explodeNode fuel i s of
        Ok s1 \<Rightarrow> explodeNodes fuel is s1
      | TypeError s1 \<Rightarrow> explodeNodes fuel is s1
      | OutOfFuel \<Rightarrow> None)"

text \<open>The state that a procedure leaves behind, when it returns or throws.\<close>

fun final :: "'s outcome \<Rightarrow> 's option" where
  "final (Ok s) = Some s"
| "final (TypeError s) = Some s"
| "final OutOfFuel = None"

section \<open>Crosslink records and the identity cache\<close>

text \<open>The keys of the identity cache, the link records created so far (appended to
  the link list or still waiting in \<^verbatim>\<open>newCrossLinks\<close>), and the crosslink records
  among them, which are those after the first \<open>n0\<close> links of the input.\<close>

definition cached :: "state \<Rightarrow> (nat \<times> nat) set" where
  "cached s = fst ` set (crossLinksDict s)"

definition all_links :: "state \<Rightarrow> link list" where
  "all_links s = linksList s @ newCrossLinks s"

definition crosslinks_of :: "nat \<Rightarrow> state \<Rightarrow> link list" where
  "crosslinks_of n0 s = drop n0 (all_links s)"

definition ends :: "link \<Rightarrow> nat \<times> nat" where
  "ends l = (source l, target l)"

text \<open>Every ordered pair has at most one crosslink record, the cache holds exactly
  the pairs of the records, and it holds a pair together with its reverse.\<close>

definition crosslinks_inv :: "nat \<Rightarrow> state \<Rightarrow> bool" where
  "crosslinks_inv n0 s \<longleftrightarrow>
     distinct (map ends (crosslinks_of n0 s)) \<and>
     set (map ends (crosslinks_of n0 s)) = cached s \<and>
     (\<forall>a b. (a, b) \<in> cached s \<longrightarrow> (b, a) \<in> cached s)"

text \<open>What building crosslinks for the main node \<open>m\<close> may change: the cache and the list
  of new crosslinks grow, \<open>m\<close> gets new neighbours, and other nodes get \<open>m\<close> as a new
  neighbour; the tree and the names, types and flags of the nodes stay.\<close>

definition grows :: "nat \<Rightarrow> state \<Rightarrow> state \<Rightarrow> bool" where
  "grows m s s' \<longleftrightarrow>
     root s' = root s \<and> length (nodesList s') = length (nodesList s) \<and>
     numNodes s' = numNodes s \<and> linksList s' = linksList s \<and>
     (\<forall>k. e_nodeName (nodesList s' ! k) = e_nodeName (nodesList s ! k) \<and>
          e_type (nodesList s' ! k) = e_type (nodesList s ! k) \<and>
          e_show (nodesList s' ! k) = e_show (nodesList s ! k) \<and>
          exploded (nodesList s' ! k) = exploded (nodesList s ! k)) \<and>
     cached s \<subseteq> cached s' \<and>
     (\<exists>ls. newCrossLinks s' = newCrossLinks s @ ls) \<and>
     (\<forall>k nb. k \<noteq> m \<longrightarrow> nb \<in> fst ` set (neighbors (nodesList s' ! k)) \<longrightarrow>
              nb \<in> fst ` set (neighbors (nodesList s ! k)) \<or> nb = m)"


text \<open>A later state of the explosion of element \<open>i\<close> whose children have the indices
  \<open>X\<close>: nodes are only ever revealed, and only children are; the element gets only
  children as new neighbours.\<close>

definition later :: "nat \<Rightarrow> nat set \<Rightarrow> state \<Rightarrow> state \<Rightarrow> bool" where
  "later i X s s' \<longleftrightarrow>
     root s' = root s \<and> length (nodesList s') = length (nodesList s) \<and>
     (\<forall>k. e_nodeName (nodesList s' ! k) = e_nodeName (nodesList s ! k) \<and>
          e_type (nodesList s' ! k) = e_type (nodesList s ! k)) \<and>
     cached s \<subseteq> cached s' \<and>
     (\<forall>k. e_show (nodesList s ! k) \<longrightarrow> e_show (nodesList s' ! k)) \<and>
     (\<forall>k. exploded (nodesList s ! k) \<longrightarrow> exploded (nodesList s' ! k)) \<and>
     (\<forall>k. e_show (nodesList s' ! k) \<and> \<not> e_show (nodesList s ! k) \<longrightarrow> k \<in> X) \<and>
     (\<forall>nb. nb \<in> fst ` set (neighbors (nodesList s' ! i)) \<longrightarrow>
           nb \<in> fst ` set (neighbors (nodesList s ! i)) \<or> nb \<in> X)"


section \<open>Example data\<close>

text \<open>A one-metro hierarchy whose metro is filtered out while still shown.\<close>

definition nd10 :: node where
  "nd10 = Node (Some 0) ''A'' True (Some ''metro_capacity'') None"

definition st10 :: state where
  "st10 = \<lparr>root = Node None ''master'' False None (Some [(''A'', nd10)]),
           nodesList = [\<lparr>e_nodeName = ''A'', e_type = ''metro'', neighbors = [],
                         e_show = True, exploded = True\<rparr>],
           numNodes = 1, linksList = [], numLinks = 0, crossLinksDict = [],
           newCrossLinks = [], currentLayer = ''metro''\<rparr>"

definition st10' :: state where
  "st10' = st10\<lparr>nodesList := [\<lparr>e_nodeName = ''A'', e_type = ''metro'', neighbors = [],
                                 e_show = False, exploded = True\<rparr>]\<rparr>"

section \<open>Building the hierarchy\<close>

text \<open>The JSON description of the hierarchy that the \<^verbatim>\<open>Node\<close> constructor reads;
  \<^verbatim>\<open>children\<close> is absent (\<open>None\<close>) at a leaf.\<close>

datatype obj = Obj
  (o_index: "nat option")
  (o_nodeName: string)
  (o_filtered: bool)
  (o_filteredBy: "string option")
  (o_children: "obj list option")

text \<open>\<^verbatim>\<open>new Node(obj, parent)\<close>: each child is stored under the last segment of its
  name, a later child with the same segment replacing an earlier one.\<close>

primrec new_Node :: "obj \<Rightarrow> node" where
  "new_Node (Obj i nm f fb ch) =
     Node i (last (split_underscore nm)) f fb
       (map_option (\<lambda>ns. fold (\<lambda>n acc. AList.update (nodeName n) n acc) ns [])
          (map_option (map new_Node) ch))"

text \<open>The name generated for a path: its segment keys joined with underscores.\<close>

fun join_underscore :: "string list \<Rightarrow> string" where
  "join_underscore [] = []"
| "join_underscore [seg] = seg"
| "join_underscore (seg # segs) = seg @ CHR ''_'' # join_underscore segs"

text \<open>The name reconstructed from the nodes met on a walk: their \<^verbatim>\<open>nodeName\<close> fields.\<close>

fun walk_names :: "node \<Rightarrow> string list \<Rightarrow> string list" where
  "walk_names n [] = []"
| "walk_names n (k # ks) =
     (case children n of
        None \<Rightarrow> []
      | Some kids \<Rightarrow> (case map_of kids k of None \<Rightarrow> [] | Some c \<Rightarrow> nodeName c # walk_names c ks))"

text \<open>Every child is stored under its own \<^verbatim>\<open>nodeName\<close>, which has no underscore.\<close>

fun keyed_by_name :: "node \<Rightarrow> bool" where
  "keyed_by_name (Node i nm f fb ch) =
     (case ch of
        None \<Rightarrow> True
      | Some kids \<Rightarrow> list_all (\<lambda>kc. fst kc = nodeName (snd kc) \<and> CHR ''_'' \<notin> set (fst kc)
                                   \<and> keyed_by_name (snd kc)) kids)"

definition tree4 :: node where
  "tree4 = Node None ''master'' False None (Some [(''A'', Node (Some 0) ''A'' False None None)])"

definition ob9 :: obj where
  "ob9 = Obj None ''master'' False None
           (Some [Obj (Some 0) ''A'' False None
                    (Some [Obj (Some 1) ''A_A1'' False None None])])"

section \<open>Ownership along a path\<close>

text \<open>Every node met on the walk along \<open>p\<close> below \<open>n\<close>, the last one included, is
  unowned (\<^verbatim>\<open>filteredBy == null\<close>).\<close>

fun unowned_along :: "node \<Rightarrow> string list \<Rightarrow> bool" where
  "unowned_along n [] = True"
| "unowned_along n (k # ks) =
     (case children n of
        None \<Rightarrow> False
      | Some kids \<Rightarrow> (case map_of kids k of
                       None \<Rightarrow> False
                     | Some c \<Rightarrow> filteredBy c = None \<and> unowned_along c ks))"

text \<open>A metro with a pop that another filter owns, over an unowned router.\<close>

definition f7 :: filter where
  "f7 = \<lparr>layer = ''metro'', attribute = ''capacity'', label = ''metro_capacity'',
         isNodeInbound = (\<lambda>n. Some False), isLinkInbound = (\<lambda>l. Some True)\<rparr>"

definition n7 :: node where
  "n7 = Node (Some 0) ''A'' True (Some ''metro_capacity'')
          (Some [(''A1'', Node (Some 1) ''A1'' True (Some ''pop_capacity'')
                    (Some [(''r1'', Node (Some 2) ''r1'' False None None)]))])"

definition n7' :: node where
  "n7' = Node (Some 0) ''A'' True (Some ''metro_capacity'')
          (Some [(''A1'', Node (Some 1) ''A1'' False None None)])"

text \<open>A stand-in for the \<^verbatim>\<open>RegExp\<close> constructor that rejects the pattern \<^verbatim>\<open>(\<close>, and
  property readers for the node name and the link type.\<close>

definition RegExp5 :: "string \<Rightarrow> (string \<Rightarrow> bool) option" where
  "RegExp5 pattern = (if pattern = ''('' then None else Some (\<lambda>a. True))"

definition getProperty5 :: "node \<Rightarrow> string \<Rightarrow> string" where
  "getProperty5 n a = nodeName n"

definition linkProperty5 :: "link \<Rightarrow> string \<Rightarrow> string" where
  "linkProperty5 l a = l_type l"

definition sorted5 :: "elt list" where
  "sorted5 = [\<lparr>e_nodeName = ''A'', e_type = ''metro'', neighbors = [],
               e_show = True, exploded = False\<rparr>]"

text \<open>A metro with two pops, one of them over a router; the second pop and the
  router are shown.\<close>

definition st8 :: state where
  "st8 = \<lparr>root = Node None ''master'' False None
                   (Some [(''M'', Node (Some 0) ''M'' False None
                      (Some [(''P1'', Node (Some 1) ''P1'' False None
                                (Some [(''r'', Node (Some 3) ''r'' False None None)])),
                             (''P2'', Node (Some 2) ''P2'' False None None)]))]),
          nodesList = [\<lparr>e_nodeName = ''M'', e_type = ''metro'', neighbors = [], e_show = False, exploded = True\<rparr>,
                       \<lparr>e_nodeName = ''M_P1'', e_type = ''pop'', neighbors = [], e_show = False, exploded = True\<rparr>,
                       \<lparr>e_nodeName = ''M_P2'', e_type = ''pop'', neighbors = [], e_show = True, exploded = True\<rparr>,
                       \<lparr>e_nodeName = ''M_P1_r'', e_type = ''router'', neighbors = [], e_show = True, exploded = True\<rparr>],
          numNodes = 4, linksList = [], numLinks = 0, crossLinksDict = [],
          newCrossLinks = [], currentLayer = ''pop''\<rparr>"

section \<open>Ownership marks\<close>

text \<open>Two states of a node with the same \<^verbatim>\<open>filtered\<close> flag and the same owner, and what a
  pass of filter \<open>f\<close> may do to a node: nothing, when another filter owns it.\<close>

definition same_marks :: "node \<Rightarrow> node \<Rightarrow> bool" where
  "same_marks d d' \<longleftrightarrow> filtered d' = filtered d \<and> filteredBy d' = filteredBy d"


text \<open>The \<^verbatim>\<open>qFilter\<close> constructor followed by \<^verbatim>\<open>updateBounds\<close>.\<close>

definition qFilter ::
  "(node \<Rightarrow> string \<Rightarrow> 'a::linorder) \<Rightarrow> (link \<Rightarrow> string \<Rightarrow> 'a) \<Rightarrow>
   string \<Rightarrow> string \<Rightarrow> 'a \<Rightarrow> 'a \<Rightarrow> filter" where
  "qFilter getProperty linkProperty attr lay lower upper =
     \<lparr>layer = lay, attribute = attr, label = lay @ ''_'' @ attr,
      isNodeInbound = (\<lambda>n. qFilter_isInbound lower upper (getProperty n attr)),
      isLinkInbound = (\<lambda>l. qFilter_isInbound lower upper (linkProperty l attr))\<rparr>"

text \<open>A metro \<open>M\<close> with one pop \<open>P\<close> over the routers \<open>r1\<close> and \<open>r2\<close>, given the marks of
  the four nodes; router \<open>r1\<close> has utilization 8 and capacity 1, router \<open>r2\<close> has
  utilization 2 and capacity 9.\<close>

definition tree1 ::
  "bool \<times> string option \<Rightarrow> bool \<times> string option \<Rightarrow> bool \<times> string option \<Rightarrow>
   bool \<times> string option \<Rightarrow> node" where
  "tree1 mM mP m1 m2 =
     Node None ''master'' False None
       (Some [(''M'', Node (Some 0) ''M'' (fst mM) (snd mM)
          (Some [(''P'', Node (Some 1) ''P'' (fst mP) (snd mP)
             (Some [(''r1'', Node (Some 2) ''r1'' (fst m1) (snd m1) None),
                    (''r2'', Node (Some 3) ''r2'' (fst m2) (snd m2) None)]))]))])"

definition sorted1 :: "elt list" where
  "sorted1 =
     [\<lparr>e_nodeName = ''M_P_r1'', e_type = ''router'', neighbors = [], e_show = False, exploded = False\<rparr>,
      \<lparr>e_nodeName = ''M_P_r2'', e_type = ''router'', neighbors = [], e_show = False, exploded = False\<rparr>,
      \<lparr>e_nodeName = ''M_P'', e_type = ''pop'', neighbors = [], e_show = False, exploded = False\<rparr>,
      \<lparr>e_nodeName = ''M'', e_type = ''metro'', neighbors = [], e_show = True, exploded = False\<rparr>]"

definition getProperty1 :: "node \<Rightarrow> string \<Rightarrow> int" where
  "getProperty1 n a =
     (if a = ''utilization'' then (if index n = Some 2 then 8 else 2)
      else (if index n = Some 3 then 9 else 1))"

definition linkProperty1 :: "link \<Rightarrow> string \<Rightarrow> int" where
  "linkProperty1 l a = 0"

definition utilFilter :: "int \<Rightarrow> int \<Rightarrow> filter" where
  "utilFilter lower upper = qFilter getProperty1 linkProperty1 ''utilization'' ''router'' lower upper"


text \<open>What one call of a crosslink builder for the main node \<open>m\<close>, and what one
  explosion, does to the invariant, the cache and the link records.\<close>

definition step_ok :: "nat \<Rightarrow> nat \<Rightarrow> state \<Rightarrow> state \<Rightarrow> bool" where
  "step_ok n0 m s s' \<longleftrightarrow>
     grows m s s' \<and>
     (crosslinks_inv n0 s \<and> n0 \<le> length (linksList s) \<longrightarrow> crosslinks_inv n0 s')"


definition xstep :: "nat \<Rightarrow> state \<Rightarrow> state \<Rightarrow> bool" where
  "xstep n0 s s' \<longleftrightarrow>
     (crosslinks_inv n0 s \<and> n0 \<le> length (linksList s) \<longrightarrow>
        crosslinks_inv n0 s' \<and> n0 \<le> length (linksList s')) \<and>
     cached s \<subseteq> cached s' \<and> (\<exists>ls. all_links s' = all_links s @ ls)"

text \<open>Two neighbouring metros \<open>A\<close> and \<open>B\<close> with their pops, before and after the
  explosion of \<open>A\<close>.\<close>

definition lk :: "nat \<Rightarrow> nat \<Rightarrow> string \<Rightarrow> link" where
  "lk a b t = \<lparr>source = a, target = b, l_type = t, l_filtered = False, l_filteredBy = None\<rparr>"

definition el :: "string \<Rightarrow> string \<Rightarrow> (nat \<times> nat) list \<Rightarrow> bool \<Rightarrow> bool \<Rightarrow> elt" where
  "el nm t nbs sh ex = \<lparr>e_nodeName = nm, e_type = t, neighbors = nbs, e_show = sh, exploded = ex\<rparr>"

definition tree3 :: node where
  "tree3 = Node None ''master'' False None
             (Some [(''A'', Node (Some 0) ''A'' False None
                       (Some [(''a1'', Node (Some 1) ''a1'' False None None),
                              (''a2'', Node (Some 2) ''a2'' False None None)])),
                    (''B'', Node (Some 3) ''B'' False None
                       (Some [(''b1'', Node (Some 4) ''b1'' False None None)]))])"

definition st3 :: state where
  "st3 = \<lparr>root = tree3,
          nodesList =
            [el ''A'' ''metro'' [(3, 0)] True False,
             el ''A_a1'' ''pop'' [] False False,
             el ''A_a2'' ''pop'' [] False False,
             el ''B'' ''metro'' [(0, 1)] True False,
             el ''B_b1'' ''pop'' [] False False],
          numNodes = 5,
          linksList = [lk 0 3 ''metro'', lk 3 0 ''metro''],
          numLinks = 2, crossLinksDict = [], newCrossLinks = [], currentLayer = ''metro''\<rparr>"

definition st3' :: state where
  "st3' = \<lparr>root = tree3,
           nodesList =
             [el ''A'' ''metro'' [(3, 0)] False True,
              el ''A_a1'' ''pop'' [(3, 2)] True True,
              el ''A_a2'' ''pop'' [(3, 4)] True True,
              el ''B'' ''metro'' [(0, 1), (1, 3), (2, 5)] True False,
              el ''B_b1'' ''pop'' [] False False],
           numNodes = 5,
           linksList = [lk 0 3 ''metro'', lk 3 0 ''metro'',
                        lk 1 3 ''pop_metro'', lk 3 1 ''pop_metro'',
                        lk 2 3 ''pop_metro'', lk 3 2 ''pop_metro''],
           numLinks = 6,
           crossLinksDict = [((1, 3), lk 1 3 ''pop_metro''), ((3, 1), lk 3 1 ''pop_metro''),
                             ((2, 3), lk 2 3 ''pop_metro''), ((3, 2), lk 3 2 ''pop_metro'')],
           newCrossLinks = [], currentLayer = ''metro''\<rparr>"

text \<open>Where the upward recursion of \<^verbatim>\<open>buildUpCrosslinks\<close> goes from a neighbour:
  \<^verbatim>\<open>neighbor_node.parent.index\<close> for the tree node that the neighbour's name resolves
  to. The read throws when the name does not resolve to a node; the index is
  \<^verbatim>\<open>undefined\<close> when the parent is the hierarchy root.\<close>

datatype ascent = Root | Parent nat | Throws

definition parent_index :: "state \<Rightarrow> nat \<Rightarrow> ascent" where
  "parent_index s n =
     (case getNodeByName (root s) (e_nodeName (nodesList s ! n)) of
        Found neighbor_node \<Rightarrow>
          (case parent (root s) (e_nodeName (nodesList s ! n)) of
             None \<Rightarrow> Throws
           | Some p \<Rightarrow> (case index p of None \<Rightarrow> Root | Some q \<Rightarrow> Parent q))
      | _ \<Rightarrow> Throws)"

text \<open>The neighbours \<open>vs\<close> are a chain that starts at \<open>n\<close> and goes from each one to the
  index of its parent.\<close>

fun climbs :: "state \<Rightarrow> nat \<Rightarrow> nat list \<Rightarrow> bool" where
  "climbs s n [] = True"
| "climbs s n (v # vs) =
     (v = n \<and> (vs = [] \<or> (parent_index s n = Parent (hd vs) \<and> climbs s (hd vs) vs)))"

text \<open>The neighbour at which the recursion stands after it has dealt with the chain
  \<open>vs\<close> from \<open>n\<close>.\<close>

definition standing :: "state \<Rightarrow> nat \<Rightarrow> nat list \<Rightarrow> ascent" where
  "standing s n vs = (if vs = [] then Parent n else parent_index s (last vs))"

text \<open>The two link records of a crosslink pair between the main node \<open>m\<close> and the
  neighbour \<open>v\<close>; both carry the type string of the first.\<close>

definition crosslink_pair :: "state \<Rightarrow> nat \<Rightarrow> nat \<Rightarrow> link list" where
  "crosslink_pair s m v =
     [\<lparr>source = m, target = v,
       l_type = e_type (nodesList s ! m) @ ''_'' @ e_type (nodesList s ! v),
       l_filtered = False, l_filteredBy = None\<rparr>,
      \<lparr>source = v, target = m,
       l_type = e_type (nodesList s ! m) @ ''_'' @ e_type (nodesList s ! v),
       l_filtered = False, l_filteredBy = None\<rparr>]"

text \<open>What the creation of the crosslink pairs of \<open>m\<close> with the neighbours \<open>vs\<close>, in
  this order, makes of the state: the two records of each pair are appended to the
  new crosslinks, the link count grows by two for each pair, both ordered pairs are
  cache keys of their records, each of the two nodes has the other as neighbour under
  the index of its record, and nothing else changes.\<close>

definition new_pairs :: "nat \<Rightarrow> nat list \<Rightarrow> (nat \<times> nat) set" where
  "new_pairs m vs = Pair m ` set vs \<union> (\<lambda>v. (v, m)) ` set vs"

definition pairs_created :: "nat \<Rightarrow> state \<Rightarrow> nat list \<Rightarrow> state \<Rightarrow> bool" where
  "pairs_created m s vs s' \<longleftrightarrow>
     newCrossLinks s' = newCrossLinks s @ concat (map (crosslink_pair s m) vs) \<and>
     numLinks s' = numLinks s + 2 * length vs \<and>
     cached s' = cached s \<union> new_pairs m vs \<and>
     (\<forall>j < length vs.
        map_of (crossLinksDict s') (m, vs ! j) = Some (crosslink_pair s m (vs ! j) ! 0) \<and>
        map_of (crossLinksDict s') (vs ! j, m) = Some (crosslink_pair s m (vs ! j) ! 1) \<and>
        map_of (neighbors (nodesList s' ! m)) (vs ! j) = Some (numLinks s + 2 * j) \<and>
        map_of (neighbors (nodesList s' ! (vs ! j))) m = Some (numLinks s + 2 * j + 1)) \<and>
     (\<forall>a b. (a, b) \<notin> new_pairs m vs \<longrightarrow>
        map_of (crossLinksDict s') (a, b) = map_of (crossLinksDict s) (a, b) \<and>
        map_of (neighbors (nodesList s' ! a)) b = map_of (neighbors (nodesList s ! a)) b) \<and>
     root s' = root s \<and> linksList s' = linksList s \<and> numNodes s' = numNodes s \<and>
     currentLayer s' = currentLayer s \<and> length (nodesList s') = length (nodesList s) \<and>
     (\<forall>k. e_nodeName (nodesList s' ! k) = e_nodeName (nodesList s ! k) \<and>
          e_type (nodesList s' ! k) = e_type (nodesList s ! k) \<and>
          e_show (nodesList s' ! k) = e_show (nodesList s ! k) \<and>
          exploded (nodesList s' ! k) = exploded (nodesList s ! k))"

text \<open>The state after the upward run for the metro and the router of the example
  above.\<close>

definition st8_up :: state where
  "st8_up = st8\<lparr>nodesList :=
                   [\<lparr>e_nodeName = ''M'', e_type = ''metro'', neighbors = [(1, 2), (3, 0)],
                      e_show = False, exploded = True\<rparr>,
                    \<lparr>e_nodeName = ''M_P1'', e_type = ''pop'', neighbors = [(0, 3)],
                      e_show = False, exploded = True\<rparr>,
                    \<lparr>e_nodeName = ''M_P2'', e_type = ''pop'', neighbors = [],
                      e_show = True, exploded = True\<rparr>,
                    \<lparr>e_nodeName = ''M_P1_r'', e_type = ''router'', neighbors = [(0, 1)],
                      e_show = True, exploded = True\<rparr>],
                 numLinks := 4,
                 crossLinksDict :=
                   [((0, 3), lk 0 3 ''metro_router''), ((3, 0), lk 3 0 ''metro_router''),
                    ((0, 1), lk 0 1 ''metro_pop''), ((1, 0), lk 1 0 ''metro_pop'')],
                 newCrossLinks :=
                   [lk 0 3 ''metro_router'', lk 3 0 ''metro_router'',
                    lk 0 1 ''metro_pop'', lk 1 0 ''metro_pop'']\<rparr>"





section \<open>Loops and outcomes\<close>

lemma bind_Ok_iff: "bind r f = Ok s' \<longleftrightarrow> (\<exists>s1. r = Ok s1 \<and> f s1 = Ok s')"
  by (cases r) auto

lemma for_each_append:
  "for_each body (xs @ ys) s = bind (for_each body xs s) (for_each body ys)"
proof (induction xs arbitrary: s)
  case Nil
  show ?case by simp
next
  case (Cons x xs)
  show ?case by (cases "body x s") (simp_all add: Cons.IH)
qed

lemma renderNodes_step_other:
  assumes "renderNodes_step r i s = Ok s'"
  shows "root s' = root s \<and> length (nodesList s') = length (nodesList s)
       \<and> (\<forall>j. j \<noteq> i \<longrightarrow> nodesList s' ! j = nodesList s ! j)
       \<and> e_nodeName (nodesList s' ! i) = e_nodeName (nodesList s ! i)"
  using assms
  by (auto simp: renderNodes_step_def Let_def split: if_splits lookup.splits)

lemma renderNodes_step_hides:
  assumes "renderNodes_step r i s = Ok s'"
    and "getNodeByName (root s) (e_nodeName (nodesList s ! i)) = Found nd"
    and "filtered nd"
  shows "\<not> e_show (nodesList s' ! i)"
  using assms
  by (auto simp: renderNodes_step_def Let_def split: if_splits lookup.splits)

lemma for_each_renderNodes_inv:
  assumes "for_each (renderNodes_step r) is s = Ok s'"
  shows "root s' = root s \<and> length (nodesList s') = length (nodesList s)
       \<and> (\<forall>j. j \<notin> set is \<longrightarrow> nodesList s' ! j = nodesList s ! j)
       \<and> (\<forall>j. e_nodeName (nodesList s' ! j) = e_nodeName (nodesList s ! j))"
  using assms
proof (induction "is" arbitrary: s)
  case Nil
  then show ?case by simp
next
  case (Cons i "is")
  from Cons.prems obtain s1 where 1: "renderNodes_step r i s = Ok s1"
    and 2: "for_each (renderNodes_step r) is s1 = Ok s'"
    by (auto simp: bind_Ok_iff)
  from renderNodes_step_other[OF 1] Cons.IH[OF 2] show ?case
    by (metis list.set_intros(1,2))
qed

lemma renderNodes_hides_upto:
  assumes "for_each (renderNodes_step r) [0 ..< n] s = Ok s'"
    and "i < n"
    and "getNodeByName (root s) (e_nodeName (nodesList s ! i)) = Found nd"
    and "filtered nd"
  shows "\<not> e_show (nodesList s' ! i)"
  using assms
proof (induction n arbitrary: s')
  case 0
  then show ?case by simp
next
  case (Suc n)
  from Suc.prems(1) obtain s1 where 1: "for_each (renderNodes_step r) [0 ..< n] s = Ok s1"
    and 2: "renderNodes_step r n s1 = Ok s'"
    by (auto simp: for_each_append bind_Ok_iff)
  note inv = for_each_renderNodes_inv[OF 1]
  show ?case
  proof (cases "i = n")
    case True
    have "getNodeByName (root s1) (e_nodeName (nodesList s1 ! n)) = Found nd"
      using inv Suc.prems(3) True by simp
    from renderNodes_step_hides[OF 2 this Suc.prems(4)] True show ?thesis by simp
  next
    case False
    then have "i < n" using Suc.prems(2) by simp
    from Suc.IH[OF 1 this Suc.prems(3,4)] renderNodes_step_other[OF 2] False
    show ?thesis by simp
  qed
qed

section \<open>A filtered node is never shown after rendering\<close>

text \<open>
  Claim C10. After a call of \<^verbatim>\<open>renderNodes\<close> that returns, every list element among
  the first \<^verbatim>\<open>numNodes\<close> whose tree node is filtered has its \<^verbatim>\<open>show\<close> flag cleared,
  whatever its \<^verbatim>\<open>exploded\<close> flag, the current layer and the \<^verbatim>\<open>resetExplosions\<close>
  argument are.
\<close>

theorem renderNodes_filtered_hidden:
  assumes "renderNodes resetExplosions s = Ok s'"
    and "i < numNodes s"
    and "getNodeByName (root s') (e_nodeName (nodesList s' ! i)) = Found nd"
    and "filtered nd"
  shows "\<not> e_show (nodesList s' ! i)"
proof -
  from assms(1) have run: "for_each (renderNodes_step resetExplosions) [0 ..< numNodes s] s = Ok s'"
    by (simp add: renderNodes_def)
  note inv = for_each_renderNodes_inv[OF run]
  have "getNodeByName (root s) (e_nodeName (nodesList s ! i)) = Found nd"
    using inv assms(3) by simp
  from renderNodes_hides_upto[OF run assms(2) this assms(4)] show ?thesis .
qed


theorem renderNodes_filtered_hidden_witness:
  "renderNodes False st10 = Ok st10' \<and> 0 < numNodes st10 \<and>
   getNodeByName (root st10') (e_nodeName (nodesList st10' ! 0)) = Found nd10 \<and>
   filtered nd10 \<and> \<not> e_show (nodesList st10' ! 0)"
proof -
  have h1: "renderNodes False st10 = Ok st10'"
    by (simp add: renderNodes_def renderNodes_step_def st10_def st10'_def nd10_def
        getNodeByName_def Let_def)
  have h2: "0 < numNodes st10" by (simp add: st10_def)
  have h3: "getNodeByName (root st10') (e_nodeName (nodesList st10' ! 0)) = Found nd10"
    by (simp add: st10_def st10'_def getNodeByName_def)
  have h4: "filtered nd10" by (simp add: nd10_def)
  from renderNodes_filtered_hidden[OF h1 h2 h3 h4] h1 h2 h3 h4 show ?thesis by simp
qed

section \<open>Resolving names\<close>

lemma split_underscore_nonempty [simp]: "split_underscore s \<noteq> []"
  by (induction s) (auto split: list.splits)

lemma split_underscore_segments: "seg \<in> set (split_underscore s) \<Longrightarrow> CHR ''_'' \<notin> set seg"
  by (induction s arbitrary: seg) (auto split: if_splits list.splits)

lemma split_underscore_plain: "CHR ''_'' \<notin> set seg \<Longrightarrow> split_underscore seg = [seg]"
  by (induction seg) auto

lemma split_underscore_append:
  "CHR ''_'' \<notin> set seg \<Longrightarrow>
   split_underscore (seg @ CHR ''_'' # rest) = seg # split_underscore rest"
  by (induction seg) auto

lemma split_join:
  "p \<noteq> [] \<Longrightarrow> \<forall>seg \<in> set p. CHR ''_'' \<notin> set seg \<Longrightarrow>
   split_underscore (join_underscore p) = p"
proof (induction p rule: join_underscore.induct)
  case 1
  then show ?case by simp
next
  case (2 seg)
  then show ?case by (simp add: split_underscore_plain)
next
  case (3 seg v va)
  then show ?case by (simp add: split_underscore_append)
qed

lemma getNodeByName_cases:
  "getNodeByName rt nm =
     (let p = split_underscore nm in
      if 3 < length p then UndefinedAfterAlert
      else case walk rt p of
             Some n \<Rightarrow> Found n
           | None \<Rightarrow> (case walk rt (butlast p) of
                        Some q \<Rightarrow>
                          if hasChildren q then
                            (if last p \<in> set Object_prototype then Inherited (last p)
                             else Undefined)
                          else TypeErrorThrown
                      | None \<Rightarrow> TypeErrorThrown))"
proof -
  obtain a as where p: "split_underscore nm = a # as"
    using split_underscore_nonempty[of nm] by (cases "split_underscore nm") auto
  show ?thesis
  proof (cases as)
    case Nil
    with p show ?thesis
      by (simp add: getNodeByName_def hasChildren_def split: option.splits)
  next
    case (Cons b bs)
    note as = this
    show ?thesis
    proof (cases bs)
      case Nil
      with p as show ?thesis
        by (simp add: getNodeByName_def hasChildren_def split: option.splits)
    next
      case (Cons c cs)
      note bs = this
      show ?thesis
      proof (cases cs)
        case Nil
        with p as bs show ?thesis
          by (simp add: getNodeByName_def hasChildren_def split: option.splits)
      next
        case (Cons d ds)
        with p as bs show ?thesis
          by (simp add: getNodeByName_def)
      qed
    qed
  qed
qed

lemma walk_found: "walk rt (split_underscore nm) = Some d \<Longrightarrow> length (split_underscore nm) \<le> 3 \<Longrightarrow>
   getNodeByName rt nm = Found d"
  by (simp add: getNodeByName_cases)

lemma found_walk: "getNodeByName rt nm = Found d \<Longrightarrow>
   walk rt (split_underscore nm) = Some d \<and> length (split_underscore nm) \<le> 3"
  by (simp add: getNodeByName_cases Let_def split: if_splits option.splits)


text \<open>
  Claim C4, as amended. Resolving a name splits it at the underscores. With more than
  three segments the lookup shows an alert and returns \<^verbatim>\<open>undefined\<close>. With one to
  three segments it walks the tree from the root: it returns the node when every
  segment names a present child, returns \<^verbatim>\<open>undefined\<close> without any error when only
  the last segment is absent under a node that has a children dictionary, except
  that for a last segment that names a property of \<^verbatim>\<open>Object.prototype\<close> it returns
  that inherited property, which is not a node; and it throws a TypeError in the
  remaining cases (an earlier segment is not a key of the dictionary it is looked up
  in, or the last but one node is a leaf). The lookup is a pure function of the tree,
  so no node is changed by it.
\<close>

theorem getNodeByName_outcomes:
  "getNodeByName rt nm =
     (let p = split_underscore nm in
      if 3 < length p then UndefinedAfterAlert
      else case walk rt p of
             Some n \<Rightarrow> Found n
           | None \<Rightarrow> (case walk rt (butlast p) of
                        Some q \<Rightarrow>
                          if hasChildren q then
                            (if last p \<in> set Object_prototype then Inherited (last p)
                             else Undefined)
                          else TypeErrorThrown
                      | None \<Rightarrow> TypeErrorThrown))"
  by (rule getNodeByName_cases)

theorem getNodeByName_outcomes_witness:
  "getNodeByName tree4 ''A'' = Found (Node (Some 0) ''A'' False None None) \<and>
   getNodeByName tree4 ''constructor'' = Inherited ''constructor'' \<and>
   getNodeByName tree4 ''constructor_x'' = TypeErrorThrown"
  using getNodeByName_outcomes[of tree4 "''A''"]
    getNodeByName_outcomes[of tree4 "''constructor''"]
    getNodeByName_outcomes[of tree4 "''constructor_x''"]
  by (simp add: tree4_def Object_prototype_def hasChildren_def)

text \<open>The claim as stated fails: an absent child and a name of four segments both
  make the lookup return \<^verbatim>\<open>undefined\<close>; no error reaches the caller.\<close>

theorem getNodeByName_no_error_counterexample:
  "walk tree4 [''B''] = None \<and> getNodeByName tree4 ''B'' = Undefined \<and>
   length (split_underscore ''A_b_c_d'') = 4 \<and>
   getNodeByName tree4 ''A_b_c_d'' = UndefinedAfterAlert"
  by (simp add: tree4_def getNodeByName_def Object_prototype_def)

section \<open>Names round-trip through the hierarchy\<close>

lemma set_update_cases:
  "kc \<in> set (AList.update k v al) \<Longrightarrow> kc = (k, v) \<or> kc \<in> set al"
  by (induction al) (auto split: if_splits)

lemma fold_update_keyed:
  assumes "\<forall>n \<in> set ns. P (nodeName n, n)" and "\<forall>kc \<in> set acc. P kc"
  shows "\<forall>kc \<in> set (fold (\<lambda>n acc. AList.update (nodeName n) n acc) ns acc). P kc"
  using assms
proof (induction ns arbitrary: acc)
  case Nil
  then show ?case by simp
next
  case (Cons n ns)
  have "\<forall>kc \<in> set (AList.update (nodeName n) n acc). P kc"
    using Cons.prems by (auto dest: set_update_cases)
  with Cons show ?case by simp
qed

lemma nodeName_new_Node: "CHR ''_'' \<notin> set (nodeName (new_Node ob))"
  by (cases ob) (simp add: split_underscore_segments[OF last_in_set])

lemma keyed_by_name_new_Node: "keyed_by_name (new_Node ob)"
proof (induction ob)
  case (Obj i nm f fb ch)
  show ?case
  proof (cases ch)
    case None
    then show ?thesis by simp
  next
    case (Some cs)
    have "\<forall>n \<in> set (map new_Node cs). (\<lambda>kc. fst kc = nodeName (snd kc) \<and> CHR ''_'' \<notin> set (fst kc)
                                   \<and> keyed_by_name (snd kc)) (nodeName n, n)"
      using Obj.IH Some by (auto simp: nodeName_new_Node)
    from fold_update_keyed[where P="\<lambda>kc. fst kc = nodeName (snd kc) \<and> CHR ''_'' \<notin> set (fst kc)
                                   \<and> keyed_by_name (snd kc)" and acc="[]", OF this]
    have "\<forall>kc\<in>set (fold (\<lambda>n. AList.update (nodeName n) n) (map new_Node cs) []).
         fst kc = nodeName (snd kc) \<and> CHR ''_'' \<notin> set (fst kc) \<and> keyed_by_name (snd kc)"
      by fastforce
    then show ?thesis using Some by (fastforce simp: list_all_iff)
  qed
qed

lemma keyed_walk:
  "keyed_by_name n \<Longrightarrow> walk n p = Some d \<Longrightarrow>
   keyed_by_name d \<and> (\<forall>seg \<in> set p. CHR ''_'' \<notin> set seg) \<and> walk_names n p = p"
proof (induction p arbitrary: n)
  case Nil
  then show ?case by simp
next
  case (Cons k ks)
  from Cons.prems(2) obtain kids c where kids: "children n = Some kids"
    and c: "map_of kids k = Some c" and w: "walk c ks = Some d"
    by (auto split: option.splits)
  from c have "(k, c) \<in> set kids" by (rule map_of_SomeD)
  with Cons.prems(1) kids have "k = nodeName c \<and> CHR ''_'' \<notin> set k \<and> keyed_by_name c"
    by (cases n) (auto simp: list_all_iff)
  with Cons.IH[OF _ w] kids c show ?case by auto
qed

text \<open>
  Claim C9. In a hierarchy built by the \<^verbatim>\<open>Node\<close> constructor, for every node reached
  by walking one to three segment keys from the root, resolving the name generated
  by joining those keys with underscores returns that very node, and the name
  reconstructed from the \<^verbatim>\<open>nodeName\<close> fields along the walk equals the generated one.
\<close>

theorem name_round_trip:
  assumes "walk (new_Node ob) p = Some d" and "1 \<le> length p" and "length p \<le> 3"
  shows "getNodeByName (new_Node ob) (join_underscore p) = Found d \<and>
         join_underscore (walk_names (new_Node ob) p) = join_underscore p"
proof -
  from keyed_walk[OF keyed_by_name_new_Node assms(1)]
  have segs: "\<forall>seg \<in> set p. CHR ''_'' \<notin> set seg" and names: "walk_names (new_Node ob) p = p"
    by simp_all
  from assms(2) have "p \<noteq> []" by auto
  from split_join[OF this segs] have sp: "split_underscore (join_underscore p) = p" .
  have "getNodeByName (new_Node ob) (join_underscore p) = Found d"
    by (rule walk_found) (simp_all add: sp assms)
  with names show ?thesis by simp
qed


theorem name_round_trip_witness:
  "walk (new_Node ob9) [''A'', ''A1''] = Some (Node (Some 1) ''A1'' False None None) \<and>
   1 \<le> length [''A'', ''A1''] \<and> length [''A'', ''A1''] \<le> 3 \<and>
   getNodeByName (new_Node ob9) (join_underscore [''A'', ''A1'']) =
     Found (Node (Some 1) ''A1'' False None None) \<and>
   join_underscore (walk_names (new_Node ob9) [''A'', ''A1'']) = join_underscore [''A'', ''A1'']"
proof -
  have h1: "walk (new_Node ob9) [''A'', ''A1''] = Some (Node (Some 1) ''A1'' False None None)"
    by (simp add: ob9_def)
  have h2: "1 \<le> length [''A'', ''A1'']" by simp
  have h3: "length [''A'', ''A1''] \<le> 3" by simp
  from name_round_trip[OF h1 h2 h3] h1 h2 h3 show ?thesis by simp
qed

section \<open>Recursive marking\<close>

declare filterOutRecursive.simps [simp del] filterInRecursive.simps [simp del]

lemma map_of_map_keyed:
  assumes "\<And>kc. fst (h kc) = fst kc"
  shows "map_of (map h kids) k = map_option (\<lambda>c. snd (h (k, c))) (map_of kids k)"
proof (induction kids)
  case Nil
  show ?case by simp
next
  case (Cons kc kids)
  show ?case using assms[of kc] by (cases kc; cases "h kc") (auto simp: Cons.IH)
qed

lemma filterOutRecursive_fields [simp]:
  "index (filterOutRecursive f n) = index n"
  "nodeName (filterOutRecursive f n) = nodeName n"
  "filtered (filterOutRecursive f n) = filtered n"
  "filteredBy (filterOutRecursive f n) = filteredBy n"
  by (subst filterOutRecursive.simps, simp)+

lemma filterOutRecursive_children:
  "children (filterOutRecursive f n) =
     map_option (map (\<lambda>kc. if filteredBy (snd kc) = None
                     then (fst kc, filterOutRecursive f (markNode f (filterOut (snd kc))))
                     else kc)) (children n)"
  by (subst filterOutRecursive.simps) simp

lemma mark_fields [simp]:
  "index (markNode f n) = index n" "nodeName (markNode f n) = nodeName n"
  "filtered (markNode f n) = filtered n" "filteredBy (markNode f n) = Some (label f)"
  "children (markNode f n) = children n"
  "index (filterOut n) = index n" "nodeName (filterOut n) = nodeName n"
  "filtered (filterOut n) = True" "filteredBy (filterOut n) = filteredBy n"
  "children (filterOut n) = children n"
  "index (unmarkNode n) = index n" "nodeName (unmarkNode n) = nodeName n"
  "filtered (unmarkNode n) = filtered n" "filteredBy (unmarkNode n) = None"
  "children (unmarkNode n) = children n"
  "index (filterIn n) = index n" "nodeName (filterIn n) = nodeName n"
  "filtered (filterIn n) = False" "filteredBy (filterIn n) = filteredBy n"
  "children (filterIn n) = children n"
  by (simp_all add: markNode_def filterOut_def unmarkNode_def filterIn_def)

lemma walk_same_children: "children a = children b \<Longrightarrow> p \<noteq> [] \<Longrightarrow> walk a p = walk b p"
  by (cases p) auto

lemma unowned_same_children: "children a = children b \<Longrightarrow> unowned_along a p = unowned_along b p"
  by (cases p) auto

lemma filterOutRecursive_walk:
  assumes "walk n p = Some d" and "p \<noteq> []"
  shows "\<exists>d'. walk (filterOutRecursive f n) p = Some d' \<and>
           index d' = index d \<and> nodeName d' = nodeName d \<and>
           (if unowned_along n p
            then filtered d' \<and> filteredBy d' = Some (label f)
            else filtered d' = filtered d \<and> filteredBy d' = filteredBy d)"
  using assms
proof (induction p arbitrary: n)
  case Nil
  then show ?case by simp
next
  case (Cons k ks)
  from Cons.prems(1) obtain kids c where kids: "children n = Some kids"
    and c: "map_of kids k = Some c" and w: "walk c ks = Some d"
    by (auto split: option.splits)
  let ?c' = "if filteredBy c = None then filterOutRecursive f (markNode f (filterOut c)) else c"
  have "map_of (map (\<lambda>kc. if filteredBy (snd kc) = None
                     then (fst kc, filterOutRecursive f (markNode f (filterOut (snd kc))))
                     else kc) kids) k = Some ?c'"
    by (subst map_of_map_keyed) (simp_all add: c)
  then have step: "walk (filterOutRecursive f n) (k # ks) = walk ?c' ks"
    using kids by (simp add: filterOutRecursive_children)
  have un: "unowned_along n (k # ks) = (filteredBy c = None \<and> unowned_along c ks)"
    using kids c by simp
  show ?case
  proof (cases "filteredBy c = None")
    case False
    with step un w show ?thesis by simp
  next
    case True
    note owned = this
    show ?thesis
    proof (cases ks)
      case Nil
      with step un w True show ?thesis by simp
    next
      case (Cons k2 ks2)
      then have ne: "ks \<noteq> []" by simp
      have w': "walk (markNode f (filterOut c)) ks = Some d"
        using w walk_same_children[of "markNode f (filterOut c)" c ks] ne by simp
      from Cons.IH[OF w' ne] obtain d' where
        d': "walk (filterOutRecursive f (markNode f (filterOut c))) ks = Some d'"
        "index d' = index d" "nodeName d' = nodeName d"
        "if unowned_along (markNode f (filterOut c)) ks
            then filtered d' \<and> filteredBy d' = Some (label f)
            else filtered d' = filtered d \<and> filteredBy d' = filteredBy d"
        by blast
      have "unowned_along (markNode f (filterOut c)) ks = unowned_along c ks"
        by (rule unowned_same_children) simp
      with d' step un owned show ?thesis by simp
    qed
  qed
qed

lemma unowned_along_end:
  "walk n p = Some d \<Longrightarrow> p \<noteq> [] \<Longrightarrow> unowned_along n p \<Longrightarrow> filteredBy d = None"
proof (induction p arbitrary: n)
  case Nil
  then show ?case by simp
next
  case (Cons k ks)
  then show ?case by (cases ks) (auto split: option.splits)
qed

text \<open>
  Claim C7, as amended. After \<^verbatim>\<open>filterOutRecursive(N, F)\<close> every descendant of \<open>N\<close> that
  is reached from \<open>N\<close> through unowned nodes only, and is itself unowned, is filtered
  and owned by \<open>F\<close>; every other descendant keeps its \<^verbatim>\<open>filtered\<close> and \<^verbatim>\<open>filteredBy\<close>
  values, in particular every descendant that some filter owned before the call.
\<close>

theorem filterOutRecursive_marks:
  assumes "walk n p = Some d" and "p \<noteq> []"
  shows "\<exists>d'. walk (filterOutRecursive f n) p = Some d' \<and>
           (unowned_along n p \<longrightarrow> filtered d' \<and> filteredBy d' = Some (label f)) \<and>
           (\<not> unowned_along n p \<longrightarrow> filtered d' = filtered d \<and> filteredBy d' = filteredBy d) \<and>
           (filteredBy d \<noteq> None \<longrightarrow> filtered d' = filtered d \<and> filteredBy d' = filteredBy d)"
proof -
  from filterOutRecursive_walk[OF assms, of f] obtain d' where
    d': "walk (filterOutRecursive f n) p = Some d'"
    "if unowned_along n p
            then filtered d' \<and> filteredBy d' = Some (label f)
            else filtered d' = filtered d \<and> filteredBy d' = filteredBy d"
    by blast
  have "\<not> unowned_along n p" if "filteredBy d \<noteq> None"
    using that unowned_along_end[OF assms] by auto
  with d' show ?thesis by (auto split: if_splits)
qed


theorem filterOutRecursive_marks_witness:
  "walk n7' [''A1''] = Some (Node (Some 1) ''A1'' False None None) \<and> [''A1''] \<noteq> [] \<and>
   unowned_along n7' [''A1''] \<and>
   map_option filtered (walk (filterOutRecursive f7 n7') [''A1'']) = Some True \<and>
   map_option filteredBy (walk (filterOutRecursive f7 n7') [''A1'']) = Some (Some ''metro_capacity'')"
proof -
  have h1: "walk n7' [''A1''] = Some (Node (Some 1) ''A1'' False None None)"
    by (simp add: n7'_def)
  have h2: "[''A1''] \<noteq> ([] :: string list)" by simp
  have h3: "unowned_along n7' [''A1'']" by (simp add: n7'_def)
  from filterOutRecursive_marks[OF h1 h2, of f7] h3 obtain d' where
    "walk (filterOutRecursive f7 n7') [''A1''] = Some d'"
    "filtered d'" "filteredBy d' = Some (label f7)"
    by blast
  with h1 h2 h3 show ?thesis by (simp add: f7_def)
qed

text \<open>The claim as stated fails: an unowned router below a pop that another filter
  owns is not reached by the recursion and stays unfiltered and unowned.\<close>

theorem filterOutRecursive_skips_counterexample:
  "map_option filteredBy (walk n7 [''A1'', ''r1'']) = Some None \<and>
   walk (filterOutRecursive f7 n7) [''A1'', ''r1''] = Some (Node (Some 2) ''r1'' False None None)"
  by (simp add: n7_def f7_def filterOutRecursive.simps)

section \<open>An invalid pattern\<close>

lemma getSubArray_Some:
  "getSubArray es lay = Some w \<Longrightarrow> \<exists>e w'. w = e # w' \<and> e_type e = lay"
  by (induction es) (auto split: if_splits)

text \<open>
  Claim C5 (the code departs from it). With a pattern that the \<^verbatim>\<open>RegExp\<close> constructor
  rejects, \<^verbatim>\<open>isInbound\<close> does not answer "no match": after the caught SyntaxError it
  reads \<^verbatim>\<open>re.test\<close> on \<^verbatim>\<open>undefined\<close> and throws a TypeError, and \<^verbatim>\<open>filterNodes\<close> is
  aborted by that TypeError at its first element, the tree left as it was.
\<close>

theorem invalid_pattern_throws:
  assumes "RegExp pattern = None"
  shows "rFilter_isInbound RegExp pattern attr = None \<and>
         filterNodes (rFilter RegExp getProperty linkProperty a lay pattern) layer_sorted_nodes rt
           = TypeError rt"
proof -
  let ?f = "rFilter RegExp getProperty linkProperty a lay pattern"
  have inb: "rFilter_isInbound RegExp pattern x = None" for x
    using assms by (simp add: rFilter_isInbound_def)
  have tgt: "filter_target ?f nd = None" for nd
    by (simp add: filter_target_def rFilter_def inb)
  have lay: "layer ?f = lay" by (simp add: rFilter_def)
  have "filterNodes ?f layer_sorted_nodes rt = TypeError rt"
  proof (cases "getSubArray layer_sorted_nodes lay")
    case None
    then show ?thesis by (simp add: filterNodes_def lay)
  next
    case (Some w)
    from getSubArray_Some[OF Some] obtain e w' where w: "w = e # w'" "e_type e = lay" by blast
    have "filterNodes_step ?f e rt = TypeError rt"
      by (simp add: filterNodes_step_def tgt lay w split: lookup.splits)
    with Some w show ?thesis by (simp add: filterNodes_def lay)
  qed
  with inb show ?thesis by simp
qed

theorem invalid_pattern_throws_witness:
  "RegExp5 ''('' = None \<and> rFilter_isInbound RegExp5 ''('' ''A'' = None \<and>
   filterNodes (rFilter RegExp5 getProperty5 linkProperty5 ''nodeName'' ''metro'' ''('')
     sorted5 tree4 = TypeError tree4"
proof -
  have h: "RegExp5 ''('' = None" by (simp add: RegExp5_def)
  from invalid_pattern_throws[where RegExp = RegExp5 and pattern = "''(''" and attr = "''A''"
      and getProperty = getProperty5 and linkProperty = linkProperty5 and a = "''nodeName''"
      and lay = "''metro''" and layer_sorted_nodes = sorted5 and rt = tree4, OF h] h
  show ?thesis by simp
qed

section \<open>Building crosslinks upwards\<close>

declare buildUpCrosslinks.simps [simp del]

lemma map_of_put_key: "map_of (put_key k v kvs) = (map_of kvs)(k \<mapsto> v)"
  by (induction kvs) (auto simp: fun_upd_twist)

lemma keys_put_key: "fst ` set (put_key k v kvs) = insert k (fst ` set kvs)"
  by (simp add: dom_map_of_conv_image_fst[symmetric] map_of_put_key)

lemma set_neighbor_length [simp]: "length (set_neighbor i j v es) = length es"
  by (simp add: set_neighbor_def)

lemma set_neighbor_nth:
  "set_neighbor i j v es ! k =
     (if k = i \<and> i < length es
      then (es ! i)\<lparr>neighbors := put_key j v (neighbors (es ! i))\<rparr>
      else es ! k)"
proof (cases "i < length es")
  case True
  then show ?thesis by (simp add: set_neighbor_def nth_list_update)
next
  case False
  then have "length es \<le> i" by simp
  then show ?thesis by (simp add: set_neighbor_def list_update_beyond)
qed

lemma set_neighbor_fields [simp]:
  "e_nodeName (set_neighbor i j v es ! k) = e_nodeName (es ! k)"
  "e_type (set_neighbor i j v es ! k) = e_type (es ! k)"
  "e_show (set_neighbor i j v es ! k) = e_show (es ! k)"
  "exploded (set_neighbor i j v es ! k) = exploded (es ! k)"
  by (simp_all add: set_neighbor_nth)

lemma writes_static [simp]:
  "root (buildCrosslinks_writes m n s) = root s"
  "length (nodesList (buildCrosslinks_writes m n s)) = length (nodesList s)"
  "numNodes (buildCrosslinks_writes m n s) = numNodes s"
  "linksList (buildCrosslinks_writes m n s) = linksList s"
  "currentLayer (buildCrosslinks_writes m n s) = currentLayer s"
  by (simp_all add: buildCrosslinks_writes_def Let_def)

lemma writes_elt [simp]:
  "e_nodeName (nodesList (buildCrosslinks_writes m n s) ! k) = e_nodeName (nodesList s ! k)"
  "e_type (nodesList (buildCrosslinks_writes m n s) ! k) = e_type (nodesList s ! k)"
  "e_show (nodesList (buildCrosslinks_writes m n s) ! k) = e_show (nodesList s ! k)"
  "exploded (nodesList (buildCrosslinks_writes m n s) ! k) = exploded (nodesList s ! k)"
  by (simp_all add: buildCrosslinks_writes_def Let_def)


section \<open>Ownership of filtered nodes\<close>

lemma filterInRecursive_fields [simp]:
  "index (filterInRecursive f n) = index n"
  "nodeName (filterInRecursive f n) = nodeName n"
  "filtered (filterInRecursive f n) = filtered n"
  "filteredBy (filterInRecursive f n) = filteredBy n"
  by (subst filterInRecursive.simps, simp)+




lemma update_at_fields [simp]:
  "p \<noteq> [] \<Longrightarrow> index (update_at g p n) = index n"
  "p \<noteq> [] \<Longrightarrow> nodeName (update_at g p n) = nodeName n"
  "p \<noteq> [] \<Longrightarrow> filtered (update_at g p n) = filtered n"
  "p \<noteq> [] \<Longrightarrow> filteredBy (update_at g p n) = filteredBy n"
  by (cases p; simp)+

lemma walk_update_at_Cons:
  assumes "children rt = Some kids"
  shows "walk (update_at g (k # ks) rt) (k' # qs) =
           (case map_of kids k' of
              None \<Rightarrow> None
            | Some c \<Rightarrow> walk (if k' = k then update_at g ks c else c) qs)"
proof -
  let ?h = "\<lambda>kc. if fst kc = k then (fst kc, update_at g ks (snd kc)) else kc"
  have mo: "map_of (map ?h kids) k' = map_option (\<lambda>c. snd (?h (k', c))) (map_of kids k')"
    by (rule map_of_map_keyed) simp
  have "walk (update_at g (k # ks) rt) (k' # qs) =
          (case map_of (map ?h kids) k' of None \<Rightarrow> None | Some c \<Rightarrow> walk c qs)"
    using assms by simp
  also have "\<dots> = (case map_of kids k' of
              None \<Rightarrow> None
            | Some c \<Rightarrow> walk (if k' = k then update_at g ks c else c) qs)"
    unfolding mo by (cases "map_of kids k'") simp_all
  finally show ?thesis .
qed



lemma list_all_update_at:
  assumes "ks \<noteq> []"
  shows "list_all (\<lambda>kc. filtered (snd kc))
           (map (\<lambda>kc. if fst kc = k then (fst kc, update_at g ks (snd kc)) else kc) kids) =
         list_all (\<lambda>kc. filtered (snd kc)) kids"
  using assms by (induction kids) auto

lemma update_at_other:
  assumes "walk rt p = Some nd" and "children nd' = children nd"
    and "walk rt q = Some d" and "q \<noteq> p"
  shows "\<exists>d'. walk (update_at (\<lambda>_. nd') p rt) q = Some d' \<and> same_marks d d' \<and>
              ((\<forall>key. q @ [key] \<noteq> p) \<longrightarrow>
                 areChildrenFilteredOut d' = areChildrenFilteredOut d)"
  using assms(1,3,4)
proof (induction p arbitrary: rt q)
  case Nil
  then obtain k' qs where q: "q = k' # qs" by (cases q) auto
  have "walk nd' q = walk nd q"
    by (rule walk_same_children) (simp_all add: assms(2) q)
  with Nil show ?case by (simp add: same_marks_def)
next
  case (Cons k ks)
  from Cons.prems(1) obtain kids c where kids: "children rt = Some kids"
    and c: "map_of kids k = Some c" and w: "walk c ks = Some nd"
    by (auto split: option.splits)
  show ?case
  proof (cases q)
    case Nil
    with Cons.prems(2) have d: "d = rt" by simp
    have "areChildrenFilteredOut (update_at (\<lambda>_. nd') (k # ks) rt) = areChildrenFilteredOut rt"
      if "ks \<noteq> []"
      using kids list_all_update_at[OF that] by (simp add: areChildrenFilteredOut_def)
    then show ?thesis using Nil d by (auto simp: same_marks_def)
  next
    case q: (Cons k' qs)
    show ?thesis
    proof (cases "k' = k")
      case True
      with Cons.prems(2) q kids c have wq: "walk c qs = Some d" by simp
      from Cons.prems(3) q True have ne: "qs \<noteq> ks" by simp
      from Cons.IH[OF w wq ne] obtain d' where
        "walk (update_at (\<lambda>_. nd') ks c) qs = Some d'" "same_marks d d'"
        "(\<forall>key. qs @ [key] \<noteq> ks) \<longrightarrow> areChildrenFilteredOut d' = areChildrenFilteredOut d"
        by blast
      then show ?thesis unfolding q walk_update_at_Cons[OF kids] using True c by simp
    next
      case False
      have "walk (update_at (\<lambda>_. nd') (k # ks) rt) q = walk rt q"
        unfolding q walk_update_at_Cons[OF kids] using False kids
        by (simp split: option.splits)
      then show ?thesis using Cons.prems(2) by (simp add: same_marks_def)
    qed
  qed
qed

lemma walk_update_at_self:
  assumes "walk rt p = Some nd"
  shows "walk (update_at (\<lambda>_. nd') p rt) p = Some nd'"
  using assms
proof (induction p arbitrary: rt)
  case Nil
  then show ?case by simp
next
  case (Cons k ks)
  from Cons.prems obtain kids c where kids: "children rt = Some kids"
    and c: "map_of kids k = Some c" and w: "walk c ks = Some nd"
    by (auto split: option.splits)
  from Cons.IH[OF w] show ?case unfolding walk_update_at_Cons[OF kids] using c by simp
qed

lemma filter_ancestor_children [simp]: "children (filter_ancestor f nd) = children nd"
  by (simp add: filter_ancestor_def)

lemma filter_ancestor_consistent:
  "filtered (filter_ancestor f nd) = areChildrenFilteredOut (filter_ancestor f nd)"
  by (auto simp: filter_ancestor_def areChildrenFilteredOut_def)


lemma filterNodes_step_not_OutOfFuel: "filterNodes_step f e rt \<noteq> OutOfFuel"
  by (auto simp: filterNodes_step_def split: lookup.splits if_splits option.splits)









section \<open>Bottom-up consistency\<close>

lemma filterNodes_step_keeps:
  assumes "filterNodes_step f e rt = Ok rt'" and "e_type e \<noteq> layer f"
    and "walk rt q = Some A"
    and "split_underscore (e_nodeName e) \<noteq> q"
    and "\<forall>key. split_underscore (e_nodeName e) \<noteq> q @ [key]"
  shows "\<exists>A'. walk rt' q = Some A' \<and> filtered A' = filtered A \<and>
              areChildrenFilteredOut A' = areChildrenFilteredOut A"
proof -
  from assms(1) obtain nd where nd: "getNodeByName rt (e_nodeName e) = Found nd"
    by (auto simp: filterNodes_step_def split: lookup.splits)
  note w = found_walk[OF nd, THEN conjunct1]
  from assms(1,2) nd have
    rt': "rt' = update_at (\<lambda>_. filter_ancestor f nd) (split_underscore (e_nodeName e)) rt"
    by (simp add: filterNodes_step_def)
  from assms(4) have ne: "q \<noteq> split_underscore (e_nodeName e)" by auto
  from assms(5) have nc: "\<forall>key. q @ [key] \<noteq> split_underscore (e_nodeName e)" by metis
  from update_at_other[OF w _ assms(3) ne, of "filter_ancestor f nd"] nc
  show ?thesis unfolding rt' by (auto simp: same_marks_def)
qed

lemma for_each_filterNodes_keeps:
  assumes "for_each (filterNodes_step f) w rt = Ok rt'"
    and "walk rt q = Some A"
    and "\<forall>e \<in> set w. e_type e \<noteq> layer f \<and> split_underscore (e_nodeName e) \<noteq> q \<and>
                      (\<forall>key. split_underscore (e_nodeName e) \<noteq> q @ [key])"
  shows "\<exists>A'. walk rt' q = Some A' \<and> filtered A' = filtered A \<and>
              areChildrenFilteredOut A' = areChildrenFilteredOut A"
  using assms
proof (induction w arbitrary: rt A)
  case Nil
  then show ?case by simp
next
  case (Cons e w)
  from Cons.prems(1) obtain rt1 where 1: "filterNodes_step f e rt = Ok rt1"
    and 2: "for_each (filterNodes_step f) w rt1 = Ok rt'"
    by (auto simp: bind_Ok_iff)
  from Cons.prems(3) have e: "e_type e \<noteq> layer f" "split_underscore (e_nodeName e) \<noteq> q"
    "\<forall>key. split_underscore (e_nodeName e) \<noteq> q @ [key]" by simp_all
  from filterNodes_step_keeps[OF 1 e(1) Cons.prems(2) e(2,3)] obtain A1 where
    A1: "walk rt1 q = Some A1" "filtered A1 = filtered A"
    "areChildrenFilteredOut A1 = areChildrenFilteredOut A" by blast
  from Cons.IH[OF 2 A1(1)] Cons.prems(3) A1 show ?case by auto
qed

lemma filterNodes_step_sets:
  assumes "filterNodes_step f e rt = Ok rt'" and "e_type e \<noteq> layer f"
  shows "\<exists>A. walk rt' (split_underscore (e_nodeName e)) = Some A \<and>
             length (split_underscore (e_nodeName e)) \<le> 3 \<and>
             filtered A = areChildrenFilteredOut A"
proof -
  from assms(1) obtain nd where nd: "getNodeByName rt (e_nodeName e) = Found nd"
    by (auto simp: filterNodes_step_def split: lookup.splits)
  note w = found_walk[OF nd]
  from assms nd have
    rt': "rt' = update_at (\<lambda>_. filter_ancestor f nd) (split_underscore (e_nodeName e)) rt"
    by (simp add: filterNodes_step_def)
  from walk_update_at_self[OF w[THEN conjunct1], of "filter_ancestor f nd"] w
    filter_ancestor_consistent[of f nd]
  show ?thesis unfolding rt' by simp
qed

text \<open>
  Claim C2. Let \<open>A\<close> be the node of an element of the window whose type is not the
  filter's layer (a coarser layer, the window being layer-sorted), such that every
  later element of the window is again not of the filter's layer and names neither
  \<open>A\<close> nor a child of \<open>A\<close> (as in a layer-sorted list of uniquely named nodes, where
  children come before their parents). After a call of \<^verbatim>\<open>filterNodes\<close> that returns,
  \<open>A\<close> is filtered if and only if all its children are filtered; equivalently \<open>A\<close> is
  filtered in if and only if it has a child that is filtered in.
\<close>

theorem filterNodes_bottom_up:
  assumes "filterNodes f layer_sorted_nodes rt = Ok rt'"
    and "getSubArray layer_sorted_nodes (layer f) = Some sub_array"
    and "j < length sub_array" and "e_type (sub_array ! j) \<noteq> layer f"
    and "\<forall>k. j < k \<and> k < length sub_array \<longrightarrow>
           e_type (sub_array ! k) \<noteq> layer f \<and>
           split_underscore (e_nodeName (sub_array ! k)) \<noteq>
             split_underscore (e_nodeName (sub_array ! j)) \<and>
           (\<forall>key. split_underscore (e_nodeName (sub_array ! k)) \<noteq>
                    split_underscore (e_nodeName (sub_array ! j)) @ [key])"
  shows "\<exists>A. getNodeByName rt' (e_nodeName (sub_array ! j)) = Found A \<and>
             filtered A = areChildrenFilteredOut A \<and>
             (\<not> filtered A \<longleftrightarrow>
                (\<exists>kids. children A = Some kids \<and> (\<exists>kc \<in> set kids. \<not> filtered (snd kc))))"
proof -
  let ?q = "split_underscore (e_nodeName (sub_array ! j))"
  have split: "sub_array = take j sub_array @ (sub_array ! j) # drop (Suc j) sub_array"
    using assms(3) by (rule id_take_nth_drop)
  from assms(1,2) have "for_each (filterNodes_step f) sub_array rt = Ok rt'"
    by (simp add: filterNodes_def)
  then have "for_each (filterNodes_step f)
               (take j sub_array @ (sub_array ! j) # drop (Suc j) sub_array) rt = Ok rt'"
    using split by simp
  then obtain rt1 rt2 where 1: "for_each (filterNodes_step f) (take j sub_array) rt = Ok rt1"
    and 2: "filterNodes_step f (sub_array ! j) rt1 = Ok rt2"
    and 3: "for_each (filterNodes_step f) (drop (Suc j) sub_array) rt2 = Ok rt'"
    by (auto simp: for_each_append bind_Ok_iff)
  from filterNodes_step_sets[OF 2 assms(4)] obtain A where
    A: "walk rt2 ?q = Some A" "length ?q \<le> 3" "filtered A = areChildrenFilteredOut A"
    by blast
  have later: "\<forall>e \<in> set (drop (Suc j) sub_array).
          e_type e \<noteq> layer f \<and> split_underscore (e_nodeName e) \<noteq> ?q \<and>
          (\<forall>key. split_underscore (e_nodeName e) \<noteq> ?q @ [key])"
  proof
    fix e assume "e \<in> set (drop (Suc j) sub_array)"
    then obtain i where i: "i < length (drop (Suc j) sub_array)"
      "e = drop (Suc j) sub_array ! i" by (auto simp: in_set_conv_nth)
    then have "e = sub_array ! (Suc j + i)" "j < Suc j + i" "Suc j + i < length sub_array"
      by auto
    with assms(5) show "e_type e \<noteq> layer f \<and> split_underscore (e_nodeName e) \<noteq> ?q \<and>
          (\<forall>key. split_underscore (e_nodeName e) \<noteq> ?q @ [key])" by blast
  qed
  from for_each_filterNodes_keeps[OF 3 A(1) later] obtain A' where
    A': "walk rt' ?q = Some A'" "filtered A' = filtered A"
    "areChildrenFilteredOut A' = areChildrenFilteredOut A" by blast
  have "getNodeByName rt' (e_nodeName (sub_array ! j)) = Found A'"
    using A' A(2) by (intro walk_found) simp_all
  moreover have "filtered A' = areChildrenFilteredOut A'" using A A' by simp
  moreover have "\<not> areChildrenFilteredOut A' \<longleftrightarrow>
      (\<exists>kids. children A' = Some kids \<and> (\<exists>kc \<in> set kids. \<not> filtered (snd kc)))"
    by (auto simp: areChildrenFilteredOut_def list_all_iff split: option.splits)
  ultimately show ?thesis by auto
qed


theorem filterNodes_bottom_up_witness:
  "filterNodes (utilFilter 0 5) sorted1
     (tree1 (False, None) (False, None) (False, None) (False, None)) =
   Ok (tree1 (False, None) (False, None) (True, Some ''router_utilization'') (False, None)) \<and>
   getSubArray sorted1 (layer (utilFilter 0 5)) = Some sorted1 \<and>
   2 < length sorted1 \<and> e_type (sorted1 ! 2) \<noteq> layer (utilFilter 0 5) \<and>
   (\<exists>A. getNodeByName
          (tree1 (False, None) (False, None) (True, Some ''router_utilization'') (False, None))
          (e_nodeName (sorted1 ! 2)) = Found A \<and>
        \<not> filtered A \<and> \<not> areChildrenFilteredOut A)"
proof -
  let ?t0 = "tree1 (False, None) (False, None) (False, None) (False, None)"
  let ?t1 = "tree1 (False, None) (False, None) (True, Some ''router_utilization'') (False, None)"
  have h1: "filterNodes (utilFilter 0 5) sorted1 ?t0 = Ok ?t1" by code_simp
  have h2: "getSubArray sorted1 (layer (utilFilter 0 5)) = Some sorted1"
    by (simp add: utilFilter_def qFilter_def sorted1_def)
  have h3: "2 < length sorted1" by (simp add: sorted1_def)
  have h4: "e_type (sorted1 ! 2) \<noteq> layer (utilFilter 0 5)"
    by (simp add: utilFilter_def qFilter_def sorted1_def)
  have h5: "\<forall>k. 2 < k \<and> k < length sorted1 \<longrightarrow>
           e_type (sorted1 ! k) \<noteq> layer (utilFilter 0 5) \<and>
           split_underscore (e_nodeName (sorted1 ! k)) \<noteq>
             split_underscore (e_nodeName (sorted1 ! 2)) \<and>
           (\<forall>key. split_underscore (e_nodeName (sorted1 ! k)) \<noteq>
                    split_underscore (e_nodeName (sorted1 ! 2)) @ [key])"
  proof (intro allI impI)
    fix k :: nat
    assume "2 < k \<and> k < length sorted1"
    then have "k = 3" by (simp add: sorted1_def)
    then show "e_type (sorted1 ! k) \<noteq> layer (utilFilter 0 5) \<and>
           split_underscore (e_nodeName (sorted1 ! k)) \<noteq>
             split_underscore (e_nodeName (sorted1 ! 2)) \<and>
           (\<forall>key. split_underscore (e_nodeName (sorted1 ! k)) \<noteq>
                    split_underscore (e_nodeName (sorted1 ! 2)) @ [key])"
      by (simp add: utilFilter_def qFilter_def sorted1_def)
  qed
  from filterNodes_bottom_up[OF h1 h2 h3 h4 h5] obtain A where
    A: "getNodeByName ?t1 (e_nodeName (sorted1 ! 2)) = Found A"
    "filtered A = areChildrenFilteredOut A" by blast
  have "getNodeByName ?t1 (e_nodeName (sorted1 ! 2)) =
          Found (Node (Some 1) ''P'' False None
                  (Some [(''r1'', Node (Some 2) ''r1'' True (Some ''router_utilization'') None),
                         (''r2'', Node (Some 3) ''r2'' False None None)]))"
    by (simp add: tree1_def sorted1_def getNodeByName_def)
  with A have "\<not> filtered A \<and> \<not> areChildrenFilteredOut A" by auto
  with A h1 h2 h3 h4 show ?thesis by blast
qed

section \<open>Crosslinks are unique and permanent\<close>

declare buildDownCrosslinks.simps [simp del]

lemma for_each_final_rel:
  assumes step: "\<And>x s s'. x \<in> set xs \<Longrightarrow> final (body x s) = Some s' \<Longrightarrow> R s s'"
    and refl: "\<And>s. R s s"
    and trans: "\<And>s1 s2 s3. R s1 s2 \<Longrightarrow> R s2 s3 \<Longrightarrow> R s1 s3"
    and "final (for_each body xs s) = Some s'"
  shows "R s s'"
  using assms(1,4)
proof (induction xs arbitrary: s)
  case Nil
  then show ?case using refl by simp
next
  case (Cons x xs)
  show ?case
  proof (cases "body x s")
    case (Ok s1)
    then have "R s s1" using Cons.prems(1)[of x s s1] by simp
    moreover have "R s1 s'"
    proof (rule Cons.IH)
      show "R t t'" if "y \<in> set xs" "final (body y t) = Some t'" for y t t'
        using Cons.prems(1)[of y t t'] that by simp
      show "final (for_each body xs s1) = Some s'" using Cons.prems(2) Ok by simp
    qed
    ultimately show ?thesis using trans by blast
  next
    case (TypeError s1)
    with Cons.prems(2) have "s' = s1" by simp
    with TypeError show ?thesis using Cons.prems(1)[of x s s1] by simp
  next
    case OutOfFuel
    with Cons.prems(2) show ?thesis by simp
  qed
qed

lemma cached_iff: "map_of (crossLinksDict s) k = None \<longleftrightarrow> k \<notin> cached s"
  by (simp add: cached_def map_of_eq_None_iff)

lemma cached_writes: "cached (buildCrosslinks_writes m n s) = cached s \<union> {(m, n), (n, m)}"
  by (auto simp: cached_def buildCrosslinks_writes_def Let_def dom_update)

lemma newCrossLinks_writes:
  "newCrossLinks (buildCrosslinks_writes m n s) =
     newCrossLinks s @ [crossLink m n s, (crossLink m n s)\<lparr>source := n, target := m\<rparr>]"
  by (simp add: buildCrosslinks_writes_def Let_def)

lemma neighbors_set_neighbor:
  "fst ` set (neighbors (set_neighbor i j v es ! k)) \<subseteq>
     fst ` set (neighbors (es ! k)) \<union> (if k = i then {j} else {})"
  by (auto simp: set_neighbor_nth keys_put_key)

lemma neighbors_writes:
  assumes "k \<noteq> m" and "nb \<in> fst ` set (neighbors (nodesList (buildCrosslinks_writes m n s) ! k))"
  shows "nb \<in> fst ` set (neighbors (nodesList s ! k)) \<or> nb = m"
proof -
  let ?es1 = "set_neighbor m n (numLinks s) (nodesList s)"
  have eq: "nodesList (buildCrosslinks_writes m n s) = set_neighbor n m (Suc (numLinks s)) ?es1"
    by (simp add: buildCrosslinks_writes_def Let_def)
  from assms(2) neighbors_set_neighbor[of n m "Suc (numLinks s)" ?es1 k]
  have "nb \<in> fst ` set (neighbors (?es1 ! k)) \<or> nb = m"
    unfolding eq by (auto split: if_splits)
  moreover have "fst ` set (neighbors (?es1 ! k)) \<subseteq> fst ` set (neighbors (nodesList s ! k))"
    using neighbors_set_neighbor[of m n "numLinks s" "nodesList s" k] assms(1) by auto
  ultimately show ?thesis by auto
qed

lemma grows_refl: "grows m s s"
  unfolding grows_def by (intro conjI allI impI exI[of _ "[]"]) simp_all

lemma grows_static:
  assumes "grows m s s'"
  shows "root s' = root s" "length (nodesList s') = length (nodesList s)"
    "numNodes s' = numNodes s" "linksList s' = linksList s"
    "e_nodeName (nodesList s' ! k) = e_nodeName (nodesList s ! k)"
    "e_type (nodesList s' ! k) = e_type (nodesList s ! k)"
    "e_show (nodesList s' ! k) = e_show (nodesList s ! k)"
    "exploded (nodesList s' ! k) = exploded (nodesList s ! k)"
    "cached s \<subseteq> cached s'"
    "\<exists>ls. newCrossLinks s' = newCrossLinks s @ ls"
  using assms unfolding grows_def by blast+

lemma grows_neighbors:
  assumes "grows m s s'" and "k \<noteq> m"
    and "nb \<in> fst ` set (neighbors (nodesList s' ! k))"
  shows "nb \<in> fst ` set (neighbors (nodesList s ! k)) \<or> nb = m"
  using assms unfolding grows_def by blast

lemma grows_trans:
  assumes "grows m s1 s2" and "grows m s2 s3"
  shows "grows m s1 s3"
proof -
  note a = grows_static[OF assms(1)] and b = grows_static[OF assms(2)]
  from a(10) b(10) obtain l1 l2 where "newCrossLinks s2 = newCrossLinks s1 @ l1"
    "newCrossLinks s3 = newCrossLinks s2 @ l2" by blast
  then have nw: "newCrossLinks s3 = newCrossLinks s1 @ (l1 @ l2)" by simp
  have nb: "nb \<in> fst ` set (neighbors (nodesList s1 ! k)) \<or> nb = m"
    if "k \<noteq> m" "nb \<in> fst ` set (neighbors (nodesList s3 ! k))" for k nb
    using grows_neighbors[OF assms(2) that] grows_neighbors[OF assms(1) that(1)] by blast
  show ?thesis unfolding grows_def
  proof (intro conjI allI impI)
    show "\<exists>ls. newCrossLinks s3 = newCrossLinks s1 @ ls" using nw by blast
    show "cached s1 \<subseteq> cached s3" using a(9) b(9) by blast
  qed (use a b nb in \<open>simp_all\<close>)
qed

lemma grows_writes: "grows m s (buildCrosslinks_writes m n s)"
proof -
  have nb: "nb \<in> fst ` set (neighbors (nodesList s ! k)) \<or> nb = m"
    if "k \<noteq> m" "nb \<in> fst ` set (neighbors (nodesList (buildCrosslinks_writes m n s) ! k))"
    for k nb
    using neighbors_writes[OF that] .
  have "cached s \<subseteq> cached (buildCrosslinks_writes m n s)" by (auto simp: cached_writes)
  moreover have "\<exists>ls. newCrossLinks (buildCrosslinks_writes m n s) = newCrossLinks s @ ls"
    by (simp add: newCrossLinks_writes)
  ultimately show ?thesis unfolding grows_def
    by (intro conjI allI impI) (use nb in \<open>simp_all\<close>)
qed


lemma crosslinks_of_writes:
  assumes "n0 \<le> length (linksList s)"
  shows "crosslinks_of n0 (buildCrosslinks_writes m n s) =
           crosslinks_of n0 s @ [crossLink m n s, (crossLink m n s)\<lparr>source := n, target := m\<rparr>]"
  using assms by (simp add: crosslinks_of_def all_links_def newCrossLinks_writes)

lemma inv_writes:
  assumes "crosslinks_inv n0 s" and "n0 \<le> length (linksList s)"
    and "(m, n) \<notin> cached s" and "m \<noteq> n"
  shows "crosslinks_inv n0 (buildCrosslinks_writes m n s)"
proof -
  from assms(1) have d: "distinct (map ends (crosslinks_of n0 s))"
    and e: "set (map ends (crosslinks_of n0 s)) = cached s"
    and sym: "\<And>a b. (a, b) \<in> cached s \<Longrightarrow> (b, a) \<in> cached s"
    unfolding crosslinks_inv_def by blast+
  from sym[of n m] assms(3) have nm: "(n, m) \<notin> cached s" by blast
  have ends: "map ends (crosslinks_of n0 (buildCrosslinks_writes m n s)) =
                map ends (crosslinks_of n0 s) @ [(m, n), (n, m)]"
    by (simp add: crosslinks_of_writes[OF assms(2)] ends_def crossLink_def)
  have "distinct (map ends (crosslinks_of n0 s) @ [(m, n), (n, m)])"
    using d e assms(3,4) nm by auto
  moreover have "set (map ends (crosslinks_of n0 s) @ [(m, n), (n, m)]) =
                 cached (buildCrosslinks_writes m n s)"
    using e by (auto simp: cached_writes)
  moreover have "(b, a) \<in> cached (buildCrosslinks_writes m n s)"
    if "(a, b) \<in> cached (buildCrosslinks_writes m n s)" for a b
    using that sym[of a b] by (auto simp: cached_writes)
  ultimately show ?thesis unfolding crosslinks_inv_def ends by blast
qed

lemma step_ok_refl: "step_ok n0 m s s"
  by (simp add: step_ok_def grows_refl)

lemma step_ok_trans: "step_ok n0 m s1 s2 \<Longrightarrow> step_ok n0 m s2 s3 \<Longrightarrow> step_ok n0 m s1 s3"
  unfolding step_ok_def using grows_trans[of m s1 s2 s3] grows_static(4)[of m s1 s2] by auto

lemma step_ok_writes:
  assumes "map_of (crossLinksDict s) (m, n) = None"
    and "e_type (nodesList s ! m) \<noteq> e_type (nodesList s ! n)"
  shows "step_ok n0 m s (buildCrosslinks_writes m n s)"
proof -
  from assms(2) have "m \<noteq> n" by auto
  moreover from assms(1) have "(m, n) \<notin> cached s" by (simp add: cached_iff)
  ultimately show ?thesis
    unfolding step_ok_def using grows_writes[of m s n] inv_writes[of n0 s m n] by blast
qed

lemma buildUp_step:
  "final (buildUpCrosslinks m n s) = Some sa \<Longrightarrow> step_ok n0 m s sa"
proof (induction m n s arbitrary: sa rule: buildUpCrosslinks.induct)
  case (1 m n s)
  note eq = buildUpCrosslinks.simps[of m n s]
  show ?case
  proof (cases "m < length (nodesList s) \<and> n < length (nodesList s)")
    case False
    with eq "1.prems" have "sa = s" by auto
    then show ?thesis by (simp add: step_ok_refl)
  next
    case rng: True
    show ?thesis
    proof (cases "map_of (crossLinksDict s) (m, n) = None \<and>
                  e_type (nodesList s ! m) \<noteq> e_type (nodesList s ! n)")
      case False
      with eq rng "1.prems" have "sa = s" by auto
      then show ?thesis by (simp add: step_ok_refl)
    next
      case fresh: True
      let ?s1 = "buildCrosslinks_writes m n s"
      have b: "buildCrosslinks m n s = Ok ?s1" using rng by (simp add: buildCrosslinks_def)
      have w: "step_ok n0 m s ?s1" using fresh by (intro step_ok_writes) simp_all
      have eq1: "buildUpCrosslinks m n s =
        (case getNodeByName (root ?s1) (e_nodeName (nodesList ?s1 ! n)) of
           Found neighbor_node \<Rightarrow>
             (case parent (root ?s1) (e_nodeName (nodesList ?s1 ! n)) of
                None \<Rightarrow> TypeError ?s1
              | Some p \<Rightarrow>
                  (case index p of
                     None \<Rightarrow> Ok ?s1
                   | Some q \<Rightarrow> buildUpCrosslinks m q ?s1))
         | _ \<Rightarrow> TypeError ?s1)"
        by (subst eq) (simp add: rng fresh b)
      show ?thesis
      proof (cases "getNodeByName (root ?s1) (e_nodeName (nodesList ?s1 ! n))")
        case (Found nd)
        note f = this
        show ?thesis
        proof (cases "parent (root ?s1) (e_nodeName (nodesList ?s1 ! n))")
          case None
          with eq1 f "1.prems" have "sa = ?s1" by simp
          with w show ?thesis by simp
        next
          case (Some p)
          note p = this
          show ?thesis
          proof (cases "index p")
            case None
            with eq1 f p "1.prems" have "sa = ?s1" by simp
            with w show ?thesis by simp
          next
            case (Some q)
            with eq1 f p "1.prems" have "final (buildUpCrosslinks m q ?s1) = Some sa" by simp
            from "1.IH"[OF rng fresh b f p Some this] have "step_ok n0 m ?s1 sa" .
            with w show ?thesis by (rule step_ok_trans)
          qed
        qed
      qed (use eq1 "1.prems" w in \<open>auto\<close>)
    qed
  qed
qed


lemma buildDown_step:
  "final (buildDownCrosslinks fuel m n s) = Some sa \<Longrightarrow> step_ok n0 m s sa"
proof (induction fuel m n s arbitrary: sa rule: buildDownCrosslinks.induct)
  case (1 fuel m n s)
  note eq = buildDownCrosslinks.simps[of fuel m n s]
  show ?case
  proof (cases "m < length (nodesList s) \<and> n < length (nodesList s)")
    case False
    with eq "1.prems" have "sa = s" by auto
    then show ?thesis by (simp add: step_ok_refl)
  next
    case rng: True
    show ?thesis
    proof (cases "e_show (nodesList s ! n) \<and> map_of (crossLinksDict s) (m, n) = None \<and>
                  e_type (nodesList s ! m) \<noteq> e_type (nodesList s ! n)")
      case True
      with eq rng "1.prems" have "sa = buildCrosslinks_writes m n s"
        by (simp add: buildCrosslinks_def)
      with True show ?thesis by (simp add: step_ok_writes)
    next
      case nb: False
      show ?thesis
      proof (cases "e_show (nodesList s ! n)")
        case True
        with eq rng nb "1.prems" have "sa = s" by auto
        then show ?thesis by (simp add: step_ok_refl)
      next
        case hid: False
        show ?thesis
        proof (cases "getNodeByName (root s) (e_nodeName (nodesList s ! n))")
          case (Found nd)
          note f = this
          show ?thesis
          proof (cases "children nd")
            case None
            with eq rng nb hid f "1.prems" have "sa = s" by simp
            then show ?thesis by (simp add: step_ok_refl)
          next
            case (Some kids)
            note kids = this
            show ?thesis
            proof (cases fuel)
              case 0
              with eq rng nb hid f kids "1.prems" have "sa = s"
                by (simp split: if_splits)
              then show ?thesis by (simp add: step_ok_refl)
            next
              case (Suc fuel')
              let ?body = "\<lambda>kc s'. case index (snd kc) of
                                       None \<Rightarrow> TypeError s'
                                     | Some ci \<Rightarrow> buildDownCrosslinks fuel' m ci s'"
              from eq rng nb hid f kids Suc "1.prems"
              have run: "final (for_each ?body kids s) = Some sa" by simp
              show ?thesis
              proof (rule for_each_final_rel[where R = "step_ok n0 m", OF _ _ _ run])
                fix kc t t' assume "kc \<in> set kids" and t: "final (?body kc t) = Some t'"
                show "step_ok n0 m t t'"
                proof (cases "index (snd kc)")
                  case None
                  with t have "t' = t" by simp
                  then show ?thesis by (simp add: step_ok_refl)
                next
                  case (Some ci)
                  with t have "final (buildDownCrosslinks fuel' m ci t) = Some t'" by simp
                  from "1.IH"[OF rng nb hid f kids Suc Some this] show ?thesis .
                qed
              qed (auto intro: step_ok_refl step_ok_trans)
            qed
          qed
        qed (use eq rng nb hid "1.prems" in \<open>auto simp: step_ok_refl\<close>)
      qed
    qed
  qed
qed

lemma xstep_refl: "xstep n0 s s"
  by (simp add: xstep_def)

lemma xstep_trans: "xstep n0 s1 s2 \<Longrightarrow> xstep n0 s2 s3 \<Longrightarrow> xstep n0 s1 s3"
  unfolding xstep_def by (elim conjE exE, intro conjI) auto

lemma step_ok_xstep:
  assumes "step_ok n0 m s s'"
  shows "xstep n0 s s'"
proof -
  from assms have g: "grows m s s'" by (simp add: step_ok_def)
  note st = grows_static[OF g]
  from st(10) obtain ls where "newCrossLinks s' = newCrossLinks s @ ls" by blast
  then have "all_links s' = all_links s @ ls" using st(4) by (simp add: all_links_def)
  then show ?thesis using assms st(4,9) unfolding xstep_def step_ok_def by auto
qed

lemma crosslinks_inv_cong:
  "all_links s' = all_links s \<Longrightarrow> cached s' = cached s \<Longrightarrow>
   crosslinks_inv n0 s' = crosslinks_inv n0 s"
  by (simp add: crosslinks_inv_def crosslinks_of_def)

lemma xstep_same:
  assumes "all_links s' = all_links s" and "cached s' = cached s"
    and "length (linksList s) \<le> length (linksList s')"
  shows "xstep n0 s s'"
  unfolding xstep_def using crosslinks_inv_cong[OF assms(1,2), of n0] assms by simp

lemma xstep_nodesList:
  "xstep n0 s (s\<lparr>nodesList := es\<rparr>)"
  by (rule xstep_same) (simp_all add: all_links_def cached_def)

lemma renderLinks_xstep:
  assumes "final (renderLinks s) = Some s'"
  shows "xstep n0 s s'"
proof -
  from assms have s': "s' = s\<lparr>linksList := linksList s @ newCrossLinks s, newCrossLinks := []\<rparr>"
    by (auto simp: renderLinks_def Let_def split: if_splits)
  show ?thesis unfolding s'
    by (rule xstep_same) (simp_all add: all_links_def cached_def)
qed

lemma final_bind:
  "final (bind r g) = Some s' \<Longrightarrow>
   (\<exists>s1. r = Ok s1 \<and> final (g s1) = Some s') \<or> r = TypeError s'"
  by (cases r) auto

lemma explode_child_xstep:
  assumes "final (explode_child fuel i kc s) = Some s'"
  shows "xstep n0 s s'"
proof (cases "index (snd kc)")
  case None
  with assms have "s' = s" by (simp add: explode_child_def)
  then show ?thesis by (simp add: xstep_refl)
next
  case (Some ci)
  show ?thesis
  proof (cases "ci < length (nodesList s)")
    case False
    with assms Some have "s' = s" by (simp add: explode_child_def)
    then show ?thesis by (simp add: xstep_refl)
  next
    case True
    let ?s1 = "s\<lparr>nodesList := (nodesList s)
                 [ci := (nodesList s ! ci)\<lparr>e_show := True, exploded := True\<rparr>]\<rparr>"
    let ?body = "\<lambda>neighbor s'. bind (buildUpCrosslinks ci neighbor s')
                                      (buildDownCrosslinks fuel ci neighbor)"
    from assms Some True
    have run: "final (for_each ?body (map fst (neighbors (nodesList ?s1 ! i))) ?s1) = Some s'"
      by (simp add: explode_child_def Let_def)
    have "xstep n0 ?s1 s'"
    proof (rule for_each_final_rel[where R = "xstep n0", OF _ _ _ run])
      fix nb t t' assume t: "final (?body nb t) = Some t'"
      from final_bind[OF t] show "xstep n0 t t'"
      proof
        assume "\<exists>s1. buildUpCrosslinks ci nb t = Ok s1 \<and>
                     final (buildDownCrosslinks fuel ci nb s1) = Some t'"
        then obtain t1 where "final (buildUpCrosslinks ci nb t) = Some t1"
          "final (buildDownCrosslinks fuel ci nb t1) = Some t'" by auto
        then have "step_ok n0 ci t t1" "step_ok n0 ci t1 t'"
          by (auto intro: buildUp_step buildDown_step)
        then show ?thesis by (auto intro: step_ok_xstep step_ok_trans)
      next
        assume "buildUpCrosslinks ci nb t = TypeError t'"
        then have "final (buildUpCrosslinks ci nb t) = Some t'" by simp
        then show ?thesis by (auto intro: step_ok_xstep buildUp_step)
      qed
    qed (auto intro: xstep_refl xstep_trans)
    with xstep_nodesList[of n0 s] show ?thesis by (auto intro: xstep_trans)
  qed
qed

lemma explodeNode_xstep:
  assumes "final (explodeNode fuel i s) = Some s'"
  shows "xstep n0 s s'"
proof (cases "i < length (nodesList s)")
  case False
  with assms have "s' = s" by (simp add: explodeNode_def)
  then show ?thesis by (simp add: xstep_refl)
next
  case True
  show ?thesis
  proof (cases "getNodeByName (root s) (e_nodeName (nodesList s ! i))")
    case (Found nd)
    let ?sE = "s\<lparr>nodesList := (nodesList s)
                 [i := (nodesList s ! i)\<lparr>e_show := False, exploded := True\<rparr>]\<rparr>"
    let ?r = "case children nd of
                None \<Rightarrow> Ok s
              | Some kids \<Rightarrow> for_each (explode_child fuel i) kids ?sE"
    from assms True Found have fb: "final (bind ?r renderLinks) = Some s'"
      by (simp add: explodeNode_def)
    have r: "xstep n0 s t" if "final ?r = Some t" for t
    proof (cases "children nd")
      case None
      with that show ?thesis by (simp add: xstep_refl)
    next
      case (Some kids)
      with that have run: "final (for_each (explode_child fuel i) kids ?sE) = Some t" by simp
      have "xstep n0 ?sE t"
        by (rule for_each_final_rel[where R = "xstep n0", OF _ _ _ run])
           (auto intro: xstep_refl xstep_trans explode_child_xstep)
      with xstep_nodesList[of n0 s] show ?thesis by (auto intro: xstep_trans)
    qed
    from final_bind[OF fb] show ?thesis
    proof
      assume "\<exists>s1. ?r = Ok s1 \<and> final (renderLinks s1) = Some s'"
      then obtain s1 where "final ?r = Some s1" "final (renderLinks s1) = Some s'" by auto
      with r[of s1] renderLinks_xstep[of s1 s' n0] show ?thesis by (auto intro: xstep_trans)
    next
      assume "?r = TypeError s'"
      then have "final ?r = Some s'" by simp
      then show ?thesis by (rule r)
    qed
  qed (use assms True in \<open>auto simp: explodeNode_def xstep_refl\<close>)
qed

lemma explodeNodes_xstep:
  "explodeNodes fuel is s = Some s' \<Longrightarrow> xstep n0 s s'"
proof (induction "is" arbitrary: s)
  case Nil
  then show ?case by (simp add: xstep_refl)
next
  case (Cons i "is")
  show ?case
  proof (cases "explodeNode fuel i s")
    case (Ok s1)
    then have "xstep n0 s s1" by (intro explodeNode_xstep[of fuel i]) simp
    moreover from Cons.prems Ok have "xstep n0 s1 s'" by (intro Cons.IH) simp
    ultimately show ?thesis by (rule xstep_trans)
  next
    case (TypeError s1)
    then have "xstep n0 s s1" by (intro explodeNode_xstep[of fuel i]) simp
    moreover from Cons.prems TypeError have "xstep n0 s1 s'" by (intro Cons.IH) simp
    ultimately show ?thesis by (rule xstep_trans)
  next
    case OutOfFuel
    with Cons.prems show ?thesis by simp
  qed
qed


lemma distinct_filter_le_1:
  "distinct (map f xs) \<Longrightarrow> length (filter (\<lambda>x. f x = y) xs) \<le> 1"
proof (induction xs)
  case Nil
  then show ?case by simp
next
  case (Cons x xs)
  show ?case
  proof (cases "f x = y")
    case True
    from Cons.prems have "f x \<notin> f ` set xs" by simp
    then have "\<forall>z \<in> set xs. f z \<noteq> y" using True by blast
    then have "filter (\<lambda>x. f x = y) xs = []"
      by (simp add: filter_empty_conv)
    with True show ?thesis by simp
  next
    case False
    with Cons show ?thesis by simp
  qed
qed

text \<open>
  Claim C3. Start from a state with an empty identity cache and no pending crosslinks,
  as the program does, and run any sequence of explosions, each of which may return
  or throw. Then for every ordered pair \<open>(a, b)\<close> at most one crosslink record (a link
  after those of the input) has source \<open>a\<close> and target \<open>b\<close>, the pair of every
  crosslink record is in the identity cache, and whatever explosions follow, cached
  pairs stay cached and the link records made so far stay in place.
\<close>

theorem crosslinks_unique:
  assumes "crossLinksDict s0 = []" and "newCrossLinks s0 = []"
    and "explodeNodes fuel is s0 = Some s"
  shows "length (filter (\<lambda>l. source l = a \<and> target l = b)
                   (crosslinks_of (length (linksList s0)) s)) \<le> 1 \<and>
         (\<forall>l \<in> set (crosslinks_of (length (linksList s0)) s).
             map_of (crossLinksDict s) (source l, target l) \<noteq> None) \<and>
         (\<forall>fuel' js s'. explodeNodes fuel' js s = Some s' \<longrightarrow>
             (\<forall>k. map_of (crossLinksDict s) k \<noteq> None \<longrightarrow> map_of (crossLinksDict s') k \<noteq> None) \<and>
             (\<exists>ls. all_links s' = all_links s @ ls))"
proof -
  let ?n0 = "length (linksList s0)"
  have inv0: "crosslinks_inv ?n0 s0"
    using assms(1,2) by (simp add: crosslinks_inv_def crosslinks_of_def all_links_def cached_def)
  from explodeNodes_xstep[OF assms(3), of ?n0] inv0 have inv: "crosslinks_inv ?n0 s"
    by (simp add: xstep_def)
  then have d: "distinct (map ends (crosslinks_of ?n0 s))"
    and e: "set (map ends (crosslinks_of ?n0 s)) = cached s"
    unfolding crosslinks_inv_def by blast+
  have "(\<lambda>l. source l = a \<and> target l = b) = (\<lambda>l. ends l = (a, b))"
    by (auto simp: ends_def)
  with distinct_filter_le_1[OF d, of "(a, b)"]
  have one: "length (filter (\<lambda>l. source l = a \<and> target l = b) (crosslinks_of ?n0 s)) \<le> 1"
    by simp
  have memo: "map_of (crossLinksDict s) (source l, target l) \<noteq> None"
    if "l \<in> set (crosslinks_of ?n0 s)" for l
  proof -
    from that have "ends l \<in> set (map ends (crosslinks_of ?n0 s))" by simp
    with e show ?thesis by (simp add: cached_iff ends_def)
  qed
  have perm: "(\<forall>k. map_of (crossLinksDict s) k \<noteq> None \<longrightarrow> map_of (crossLinksDict s') k \<noteq> None) \<and>
             (\<exists>ls. all_links s' = all_links s @ ls)"
    if "explodeNodes fuel' js s = Some s'" for fuel' js s'
    using explodeNodes_xstep[OF that, of 0] by (auto simp: xstep_def cached_iff)
  from one memo perm show ?thesis by blast
qed

theorem crosslinks_unique_witness:
  "crossLinksDict st3 = [] \<and> newCrossLinks st3 = [] \<and>
   explodeNodes 0 [0] st3 = Some st3' \<and>
   length (filter (\<lambda>l. source l = 1 \<and> target l = 3)
             (crosslinks_of (length (linksList st3)) st3')) \<le> 1 \<and>
   map_of (crossLinksDict st3') (1, 3) \<noteq> None"
proof -
  have h1: "crossLinksDict st3 = []" by (simp add: st3_def)
  have h2: "newCrossLinks st3 = []" by (simp add: st3_def)
  have h3: "explodeNodes 0 [0] st3 = Some st3'" by code_simp
  have m: "map_of (crossLinksDict st3') (1, 3) \<noteq> None" by (simp add: st3'_def)
  from crosslinks_unique[OF h1 h2 h3, of 1 3] h1 h2 h3 m show ?thesis by blast
qed

section \<open>The upward run of the crosslink builder\<close>

lemma parent_index_writes [simp]:
  "parent_index (buildCrosslinks_writes m n s) k = parent_index s k"
  by (simp add: parent_index_def split: lookup.splits)

lemma climbs_writes [simp]: "climbs (buildCrosslinks_writes m n s) q vs = climbs s q vs"
  by (induction vs arbitrary: q) simp_all

lemma crosslink_pair_writes [simp]:
  "crosslink_pair (buildCrosslinks_writes m n s) a b = crosslink_pair s a b"
  by (simp add: crosslink_pair_def)

lemma numLinks_writes [simp]: "numLinks (buildCrosslinks_writes m n s) = numLinks s + 2"
  by (simp add: buildCrosslinks_writes_def Let_def)

lemma newCrossLinks_pair:
  "newCrossLinks (buildCrosslinks_writes m n s) = newCrossLinks s @ crosslink_pair s m n"
  by (simp add: buildCrosslinks_writes_def Let_def crossLink_def crosslink_pair_def)

lemma dict_writes:
  "map_of (crossLinksDict (buildCrosslinks_writes m n s)) key =
     (if key = (n, m) then Some (crosslink_pair s m n ! 1)
      else if key = (m, n) then Some (crosslink_pair s m n ! 0)
      else map_of (crossLinksDict s) key)"
  by (simp add: buildCrosslinks_writes_def Let_def crossLink_def crosslink_pair_def update_conv')

lemma neighbors_map_writes:
  assumes "m < length (nodesList s)" and "n < length (nodesList s)" and "m \<noteq> n"
  shows "map_of (neighbors (nodesList (buildCrosslinks_writes m n s) ! a)) b =
     (if (a, b) = (m, n) then Some (numLinks s)
      else if (a, b) = (n, m) then Some (Suc (numLinks s))
      else map_of (neighbors (nodesList s ! a)) b)"
  using assms
  by (simp add: buildCrosslinks_writes_def Let_def set_neighbor_nth map_of_put_key)

lemma buildUp_fresh:
  assumes "m < length (nodesList s)" and "n < length (nodesList s)"
    and "(m, n) \<notin> cached s" and "e_type (nodesList s ! m) \<noteq> e_type (nodesList s ! n)"
  shows "buildUpCrosslinks m n s =
           (case parent_index s n of
              Root \<Rightarrow> Ok (buildCrosslinks_writes m n s)
            | Throws \<Rightarrow> TypeError (buildCrosslinks_writes m n s)
            | Parent q \<Rightarrow> buildUpCrosslinks m q (buildCrosslinks_writes m n s))"
  using assms
  by (subst buildUpCrosslinks.simps)
     (simp add: cached_iff buildCrosslinks_def parent_index_def
           split: lookup.splits option.splits)

lemma buildUp_stop:
  assumes "m < length (nodesList s)" and "n < length (nodesList s)"
    and "(m, n) \<in> cached s \<or> e_type (nodesList s ! m) = e_type (nodesList s ! n)"
  shows "buildUpCrosslinks m n s = Ok s"
  using assms by (subst buildUpCrosslinks.simps) (auto simp: cached_iff)

lemma buildUp_range:
  assumes "\<not> (m < length (nodesList s) \<and> n < length (nodesList s))"
  shows "buildUpCrosslinks m n s = TypeError s"
  using assms by (subst buildUpCrosslinks.simps) auto

lemma pairs_created_Nil: "pairs_created m s [] s"
  by (simp add: pairs_created_def new_pairs_def)


lemma crosslink_pair_writes_fun [simp]:
  "crosslink_pair (buildCrosslinks_writes m n s) a = crosslink_pair s a"
  by (rule ext) simp

lemma pairs_createdD:
  assumes "pairs_created m s vs s'"
  shows "newCrossLinks s' = newCrossLinks s @ concat (map (crosslink_pair s m) vs)"
    and "numLinks s' = numLinks s + 2 * length vs"
    and "cached s' = cached s \<union> new_pairs m vs"
    and "\<And>j. j < length vs \<Longrightarrow>
        map_of (crossLinksDict s') (m, vs ! j) = Some (crosslink_pair s m (vs ! j) ! 0) \<and>
        map_of (crossLinksDict s') (vs ! j, m) = Some (crosslink_pair s m (vs ! j) ! 1) \<and>
        map_of (neighbors (nodesList s' ! m)) (vs ! j) = Some (numLinks s + 2 * j) \<and>
        map_of (neighbors (nodesList s' ! (vs ! j))) m = Some (numLinks s + 2 * j + 1)"
    and "\<And>a b. (a, b) \<notin> new_pairs m vs \<Longrightarrow>
        map_of (crossLinksDict s') (a, b) = map_of (crossLinksDict s) (a, b) \<and>
        map_of (neighbors (nodesList s' ! a)) b = map_of (neighbors (nodesList s ! a)) b"
    and "root s' = root s \<and> linksList s' = linksList s \<and> numNodes s' = numNodes s \<and>
     currentLayer s' = currentLayer s \<and> length (nodesList s') = length (nodesList s)"
    and "\<And>k. e_nodeName (nodesList s' ! k) = e_nodeName (nodesList s ! k) \<and>
          e_type (nodesList s' ! k) = e_type (nodesList s ! k) \<and>
          e_show (nodesList s' ! k) = e_show (nodesList s ! k) \<and>
          exploded (nodesList s' ! k) = exploded (nodesList s ! k)"
  using assms unfolding pairs_created_def by blast+

lemma new_pairs_Cons: "new_pairs m (n # vs) = {(m, n), (n, m)} \<union> new_pairs m vs"
  by (auto simp: new_pairs_def)

lemma dict_writes_other:
  "key \<noteq> (m, n) \<Longrightarrow> key \<noteq> (n, m) \<Longrightarrow>
   map_of (crossLinksDict (buildCrosslinks_writes m n s)) key = map_of (crossLinksDict s) key"
  by (simp add: dict_writes)

lemma dict_writes_new:
  assumes "m \<noteq> n"
  shows "map_of (crossLinksDict (buildCrosslinks_writes m n s)) (m, n) =
           Some (crosslink_pair s m n ! 0)"
    and "map_of (crossLinksDict (buildCrosslinks_writes m n s)) (n, m) =
           Some (crosslink_pair s m n ! 1)"
  using assms by (simp_all add: dict_writes)

lemma neighbors_writes_other:
  assumes "m < length (nodesList s)" and "n < length (nodesList s)" and "m \<noteq> n"
    and "(a, b) \<noteq> (m, n)" and "(a, b) \<noteq> (n, m)"
  shows "map_of (neighbors (nodesList (buildCrosslinks_writes m n s) ! a)) b =
         map_of (neighbors (nodesList s ! a)) b"
  by (subst neighbors_map_writes[OF assms(1-3)]) (simp only: assms(4,5) if_False)

lemma neighbors_writes_new:
  assumes "m < length (nodesList s)" and "n < length (nodesList s)" and "m \<noteq> n"
  shows "map_of (neighbors (nodesList (buildCrosslinks_writes m n s) ! m)) n =
           Some (numLinks s)"
    and "map_of (neighbors (nodesList (buildCrosslinks_writes m n s) ! n)) m =
           Some (numLinks s + 1)"
  using assms by (simp_all add: neighbors_map_writes)

lemma pairs_created_Cons:
  assumes pc: "pairs_created m (buildCrosslinks_writes m n s) vs s'"
    and rng: "m < length (nodesList s)" "n < length (nodesList s)"
    and mn: "m \<noteq> n" and nvs: "n \<notin> set vs" and mvs: "m \<notin> set vs"
  shows "pairs_created m s (n # vs) s'"
proof -
  let ?s1 = "buildCrosslinks_writes m n s"
  note d = pairs_createdD[OF pc]
  have out: "(m, n) \<notin> new_pairs m vs" "(n, m) \<notin> new_pairs m vs"
    using nvs mvs mn by (auto simp: new_pairs_def)
  have p1: "newCrossLinks s' = newCrossLinks s @ concat (map (crosslink_pair s m) (n # vs))"
    using d(1) by (simp add: newCrossLinks_pair)
  have p2: "numLinks s' = numLinks s + 2 * length (n # vs)"
    using d(2) by simp
  have p3: "cached s' = cached s \<union> new_pairs m (n # vs)"
    unfolding d(3) cached_writes new_pairs_Cons by blast
  have p4: "map_of (crossLinksDict s') (m, (n # vs) ! j) = Some (crosslink_pair s m ((n # vs) ! j) ! 0) \<and>
        map_of (crossLinksDict s') ((n # vs) ! j, m) = Some (crosslink_pair s m ((n # vs) ! j) ! 1) \<and>
        map_of (neighbors (nodesList s' ! m)) ((n # vs) ! j) = Some (numLinks s + 2 * j) \<and>
        map_of (neighbors (nodesList s' ! ((n # vs) ! j))) m = Some (numLinks s + 2 * j + 1)"
    if "j < length (n # vs)" for j
  proof (cases j)
    case 0
    note a = d(5)[OF out(1)] and b = d(5)[OF out(2)]
    have "map_of (crossLinksDict s') (m, n) = Some (crosslink_pair s m n ! 0)"
      using a[THEN conjunct1] unfolding dict_writes_new[OF mn] .
    moreover have "map_of (crossLinksDict s') (n, m) = Some (crosslink_pair s m n ! 1)"
      using b[THEN conjunct1] unfolding dict_writes_new[OF mn] .
    moreover have "map_of (neighbors (nodesList s' ! m)) n = Some (numLinks s)"
      using a[THEN conjunct2] unfolding neighbors_writes_new[OF rng mn] .
    moreover have "map_of (neighbors (nodesList s' ! n)) m = Some (numLinks s + 1)"
      using b[THEN conjunct2] unfolding neighbors_writes_new[OF rng mn] .
    ultimately show ?thesis unfolding 0 by simp
  next
    case (Suc j')
    with that have "j' < length vs" by simp
    from d(4)[OF this] show ?thesis unfolding Suc by simp
  qed
  have p5: "map_of (crossLinksDict s') (a, b) = map_of (crossLinksDict s) (a, b) \<and>
        map_of (neighbors (nodesList s' ! a)) b = map_of (neighbors (nodesList s ! a)) b"
    if "(a, b) \<notin> new_pairs m (n # vs)" for a b
  proof -
    from that have o: "(a, b) \<notin> new_pairs m vs" and ne: "(a, b) \<noteq> (m, n)" "(a, b) \<noteq> (n, m)"
      unfolding new_pairs_Cons by blast+
    note e1 = dict_writes_other[OF ne, of s]
    note e2 = neighbors_writes_other[OF rng mn ne]
    from d(5)[OF o] show ?thesis unfolding e1 e2 .
  qed
  have p6: "root s' = root s \<and> linksList s' = linksList s \<and> numNodes s' = numNodes s \<and>
     currentLayer s' = currentLayer s \<and> length (nodesList s') = length (nodesList s)"
    using d(6) by simp
  have p7: "e_nodeName (nodesList s' ! k) = e_nodeName (nodesList s ! k) \<and>
          e_type (nodesList s' ! k) = e_type (nodesList s ! k) \<and>
          e_show (nodesList s' ! k) = e_show (nodesList s ! k) \<and>
          exploded (nodesList s' ! k) = exploded (nodesList s ! k)" for k
    using d(7)[of k] by simp
  have q4: "\<forall>j < length (n # vs).
        map_of (crossLinksDict s') (m, (n # vs) ! j) = Some (crosslink_pair s m ((n # vs) ! j) ! 0) \<and>
        map_of (crossLinksDict s') ((n # vs) ! j, m) = Some (crosslink_pair s m ((n # vs) ! j) ! 1) \<and>
        map_of (neighbors (nodesList s' ! m)) ((n # vs) ! j) = Some (numLinks s + 2 * j) \<and>
        map_of (neighbors (nodesList s' ! ((n # vs) ! j))) m = Some (numLinks s + 2 * j + 1)"
    using p4 by blast
  have q5: "\<forall>a b. (a, b) \<notin> new_pairs m (n # vs) \<longrightarrow>
        map_of (crossLinksDict s') (a, b) = map_of (crossLinksDict s) (a, b) \<and>
        map_of (neighbors (nodesList s' ! a)) b = map_of (neighbors (nodesList s ! a)) b"
    using p5 by blast
  have q7: "\<forall>k. e_nodeName (nodesList s' ! k) = e_nodeName (nodesList s ! k) \<and>
          e_type (nodesList s' ! k) = e_type (nodesList s ! k) \<and>
          e_show (nodesList s' ! k) = e_show (nodesList s ! k) \<and>
          exploded (nodesList s' ! k) = exploded (nodesList s ! k)"
    using p7 by blast
  from p6 have r: "root s' = root s" "linksList s' = linksList s" "numNodes s' = numNodes s"
    "currentLayer s' = currentLayer s" "length (nodesList s') = length (nodesList s)"
    by blast+
  show ?thesis
    unfolding pairs_created_def
    by (intro conjI) (fact p1 p2 p3 q4 q5 r q7)+
qed


lemma standing_Cons:
  "parent_index s n = Parent q \<Longrightarrow>
   standing s n (n # vs) = standing (buildCrosslinks_writes m n s) q vs"
  by (simp add: standing_def)

lemma standing_single: "standing s n [n] = parent_index s n"
  by (simp add: standing_def)

lemma parent_index_Parent:
  assumes "parent_index s n = Parent q"
  obtains nd p where "getNodeByName (root s) (e_nodeName (nodesList s ! n)) = Found nd"
    and "parent (root s) (e_nodeName (nodesList s ! n)) = Some p" and "index p = Some q"
  using assms by (auto simp: parent_index_def split: lookup.splits option.splits)

text \<open>
  Claim C8, as amended. \<^verbatim>\<open>buildUpCrosslinks\<close> for a main node \<open>m\<close> and a neighbour \<open>n\<close>
  goes up a chain \<open>vs\<close> of distinct neighbours that starts at \<open>n\<close> and leads from each
  one to the index of the parent of the tree node that its name resolves to. Every
  neighbour on the chain is in the node list, has another type than \<open>m\<close> and had no
  crosslink with \<open>m\<close> cached; for each of them, in this order, the crosslink pair is
  created: two link records, \<open>m\<close> to the neighbour and back, both typed by the type
  of \<open>m\<close>, an underscore and the type of the neighbour, are appended to the new
  crosslinks, the link count grows by two, each of the two nodes gets the other as
  neighbour under the index of its record, and both ordered pairs enter the cache.
  The run returns when the parent of the last neighbour has no index (the
  hierarchy root is reached), or when the next neighbour has a crosslink with \<open>m\<close>
  in the cache or has the type of \<open>m\<close>. It throws a TypeError, and keeps the pairs
  created so far, when the name of the last neighbour does not resolve to a tree node
  or when an index is outside the node list.
\<close>

theorem buildUpCrosslinks_recursion:
  "\<exists>vs s'.
     climbs s n vs \<and> distinct vs \<and>
     (\<forall>v \<in> set vs. m < length (nodesList s) \<and> v < length (nodesList s) \<and>
                   e_type (nodesList s ! m) \<noteq> e_type (nodesList s ! v) \<and> (m, v) \<notin> cached s) \<and>
     pairs_created m s vs s' \<and>
     (case standing s n vs of
        Root \<Rightarrow> buildUpCrosslinks m n s = Ok s'
      | Throws \<Rightarrow> buildUpCrosslinks m n s = TypeError s'
      | Parent q \<Rightarrow>
          if m < length (nodesList s) \<and> q < length (nodesList s)
          then buildUpCrosslinks m n s = Ok s' \<and>
               ((m, q) \<in> cached s' \<or> e_type (nodesList s ! m) = e_type (nodesList s ! q))
          else buildUpCrosslinks m n s = TypeError s')"
proof (induction m n s rule: buildUpCrosslinks.induct)
  case (1 m n s)
  let ?s1 = "buildCrosslinks_writes m n s"
  let ?stop = "\<lambda>s n vs s'. case standing s n vs of
        Root \<Rightarrow> buildUpCrosslinks m n s = Ok s'
      | Throws \<Rightarrow> buildUpCrosslinks m n s = TypeError s'
      | Parent q \<Rightarrow>
          if m < length (nodesList s) \<and> q < length (nodesList s)
          then buildUpCrosslinks m n s = Ok s' \<and>
               ((m, q) \<in> cached s' \<or> e_type (nodesList s ! m) = e_type (nodesList s ! q))
          else buildUpCrosslinks m n s = TypeError s'"
  let ?new = "\<lambda>s vs. \<forall>v \<in> set vs. m < length (nodesList s) \<and> v < length (nodesList s) \<and>
                   e_type (nodesList s ! m) \<noteq> e_type (nodesList s ! v) \<and> (m, v) \<notin> cached s"
  show ?case
  proof (cases "m < length (nodesList s) \<and> n < length (nodesList s)")
    case False
    then have "?stop s n [] s" using buildUp_range[of m s n] by (auto simp: standing_def)
    then have "climbs s n [] \<and> distinct [] \<and> ?new s [] \<and> pairs_created m s [] s \<and> ?stop s n [] s"
      by (simp add: pairs_created_Nil)
    then show ?thesis by blast
  next
    case rng: True
    show ?thesis
    proof (cases "(m, n) \<in> cached s \<or> e_type (nodesList s ! m) = e_type (nodesList s ! n)")
      case True
      with rng have "?stop s n [] s" by (simp add: standing_def buildUp_stop)
      then have "climbs s n [] \<and> distinct [] \<and> ?new s [] \<and> pairs_created m s [] s \<and> ?stop s n [] s"
        by (simp add: pairs_created_Nil)
      then show ?thesis by blast
    next
      case False
      then have fresh: "(m, n) \<notin> cached s" "e_type (nodesList s ! m) \<noteq> e_type (nodesList s ! n)"
        by simp_all
      then have mn: "m \<noteq> n" by auto
      note eq = buildUp_fresh[OF rng[THEN conjunct1] rng[THEN conjunct2] fresh]
      have one: "pairs_created m s [n] ?s1"
        by (rule pairs_created_Cons[OF pairs_created_Nil rng[THEN conjunct1] rng[THEN conjunct2] mn])
           simp_all
      have new1: "?new s [n]" using rng fresh by simp
      show ?thesis
      proof (cases "parent_index s n")
        case Root
        with eq have "?stop s n [n] ?s1" by (simp add: standing_single)
        with one new1 have "climbs s n [n] \<and> distinct [n] \<and> ?new s [n] \<and>
            pairs_created m s [n] ?s1 \<and> ?stop s n [n] ?s1" by simp
        then show ?thesis by blast
      next
        case Throws
        with eq have "?stop s n [n] ?s1" by (simp add: standing_single)
        with one new1 have "climbs s n [n] \<and> distinct [n] \<and> ?new s [n] \<and>
            pairs_created m s [n] ?s1 \<and> ?stop s n [n] ?s1" by simp
        then show ?thesis by blast
      next
        case (Parent q)
        from parent_index_Parent[OF Parent] obtain nd p where
          nd: "getNodeByName (root s) (e_nodeName (nodesList s ! n)) = Found nd"
          and p: "parent (root s) (e_nodeName (nodesList s ! n)) = Some p"
          and q: "index p = Some q" by blast
        have c: "map_of (crossLinksDict s) (m, n) = None \<and>
                 e_type (nodesList s ! m) \<noteq> e_type (nodesList s ! n)"
          using fresh by (simp add: cached_iff)
        have b: "buildCrosslinks m n s = Ok ?s1" using rng by (simp add: buildCrosslinks_def)
        have nd1: "getNodeByName (root ?s1) (e_nodeName (nodesList ?s1 ! n)) = Found nd"
          using nd by simp
        have p1: "parent (root ?s1) (e_nodeName (nodesList ?s1 ! n)) = Some p"
          using p by simp
        from "1.IH"[OF rng c b nd1 p1 q] obtain vs s' where
          cl: "climbs ?s1 q vs" and di: "distinct vs" and nw: "?new ?s1 vs"
          and pc: "pairs_created m ?s1 vs s'" and st: "?stop ?s1 q vs s'" by blast
        have nvs: "n \<notin> set vs" and mvs: "m \<notin> set vs"
          using nw by (auto simp: cached_writes)
        have cl': "climbs s n (n # vs)"
          using cl Parent by (cases vs) simp_all
        have di': "distinct (n # vs)" using di nvs by simp
        have nw': "?new s (n # vs)"
          using nw new1 by (simp add: cached_writes)
        have pc': "pairs_created m s (n # vs) s'"
          by (rule pairs_created_Cons[OF pc rng[THEN conjunct1] rng[THEN conjunct2] mn nvs mvs])
        have up: "buildUpCrosslinks m n s = buildUpCrosslinks m q ?s1"
          using eq Parent by simp
        have st': "?stop s n (n # vs) s'"
          using st unfolding standing_Cons[OF Parent, of vs m] up
          by (cases "standing ?s1 q vs") (auto split: if_splits)
        from cl' di' nw' pc' st' show ?thesis by blast
      qed
    qed
  qed
qed


theorem buildUpCrosslinks_recursion_witness:
  "buildUpCrosslinks 0 3 st8 = Ok st8_up \<and> climbs st8 3 [3, 1] \<and>
   pairs_created 0 st8 [3, 1] st8_up \<and> standing st8 3 [3, 1] = Parent 0 \<and>
   newCrossLinks st8_up =
     [lk 0 3 ''metro_router'', lk 3 0 ''metro_router'', lk 0 1 ''metro_pop'', lk 1 0 ''metro_pop'']"
proof -
  have run: "buildUpCrosslinks 0 3 st8 = Ok st8_up" by code_simp
  have p3: "parent_index st8 3 = Parent 1" by code_simp
  have p1: "parent_index st8 1 = Parent 0" by code_simp
  from buildUpCrosslinks_recursion[where m = 0 and n = 3 and s = st8] obtain vs s' where
    cl: "climbs st8 3 vs" and pc: "pairs_created 0 st8 vs s'"
    and st: "case standing st8 3 vs of
        Root \<Rightarrow> buildUpCrosslinks 0 3 st8 = Ok s'
      | Throws \<Rightarrow> buildUpCrosslinks 0 3 st8 = TypeError s'
      | Parent q \<Rightarrow>
          if 0 < length (nodesList st8) \<and> q < length (nodesList st8)
          then buildUpCrosslinks 0 3 st8 = Ok s' \<and>
               ((0, q) \<in> cached s' \<or> e_type (nodesList st8 ! 0) = e_type (nodesList st8 ! q))
          else buildUpCrosslinks 0 3 st8 = TypeError s'"
    by blast
  from st have s': "s' = st8_up"
    unfolding run by (cases "standing st8 3 vs") (auto split: if_splits)
  have "numLinks st8_up = numLinks st8 + 2 * length vs"
    using pc unfolding s' pairs_created_def by blast
  then have len: "length vs = 2" by (simp add: st8_up_def st8_def)
  then obtain a b where vs: "vs = [a, b]"
    by (cases vs; cases "tl vs") auto
  from cl have "a = 3" "parent_index st8 3 = Parent b" unfolding vs by simp_all
  with p3 have "vs = [3, 1]" unfolding vs by simp
  with cl pc s' run p1 show ?thesis
    by (simp add: standing_def st8_up_def)
qed

text \<open>The claim as stated fails: the recursion that starts at the router below pop
  \<open>P1\<close> for the shown pop \<open>P2\<close> stops at \<open>P1\<close>, which has the type of \<open>P2\<close>, although no
  crosslink between the two pops is cached and \<open>P1\<close> is not below the root but
  below the metro with index 0.\<close>

theorem buildUpCrosslinks_same_type_counterexample:
  "buildUpCrosslinks 2 3 st8 = Ok (buildCrosslinks_writes 2 3 st8) \<and>
   map_of (crossLinksDict (buildCrosslinks_writes 2 3 st8)) (2, 1) = None \<and>
   e_nodeName (nodesList st8 ! 3) = ''M_P1_r'' \<and>
   map_option index (parent (root st8) ''M_P1_r'') = Some (Some 1) \<and>
   e_nodeName (nodesList st8 ! 1) = ''M_P1'' \<and>
   map_option index (parent (root st8) ''M_P1'') = Some (Some 0)"
  by code_simp

section \<open>Exploding a node twice\<close>































end
